theory Spec2Isabelle
  imports Complex_Main "HOL-Library.Sublist"
begin

section \<open>Strings\<close>

text \<open>
  A JavaScript string is a sequence of UTF-16 code units; \<^verbatim>\<open>text[idx]\<close> is the
  one-unit string at \<open>idx\<close> and \<^verbatim>\<open>text.length\<close> counts code units. Texts, morphs
  and PoS tags are therefore lists of code units (natural numbers below 65536).
\<close>

type_synonym jstr = "nat list"

definition lit :: "string \<Rightarrow> jstr" where
  "lit s = map of_char s"

text \<open>
  The source uses plain objects \<^verbatim>\<open>{}\<close> as dictionaries. An object is modelled by
  its own properties (a map or an association list), and a read \<^verbatim>\<open>obj[key]\<close> of a
  key that is not an own property finds the member of \<^verbatim>\<open>Object.prototype\<close> of that
  name, if there is one. Every such member is a function, or the prototype object
  itself for \<^verbatim>\<open>__proto__\<close>: it is truthy, it is not a number, and it has none of the
  properties \<^verbatim>\<open>score\<close>, \<^verbatim>\<open>pos\<close> that the source reads. The members are not
  enumerable, so \<^verbatim>\<open>for ... in\<close> visits own keys only. Trie levels are keyed by one
  code unit, and no member has such a name.
\<close>

definition proto_member :: "jstr \<Rightarrow> bool" where
  "proto_member key \<longleftrightarrow>
     key \<in> set (map lit
       [''constructor'', ''hasOwnProperty'', ''isPrototypeOf'', ''propertyIsEnumerable'',
        ''toLocaleString'', ''toString'', ''valueOf'', ''__proto__'',
        ''__defineGetter__'', ''__defineSetter__'', ''__lookupGetter__'',
        ''__lookupSetter__''])"

text \<open>\<^verbatim>\<open>text.slice(a, b)\<close> for non-negative integers.\<close>

definition slice :: "jstr \<Rightarrow> nat \<Rightarrow> nat \<Rightarrow> jstr" where
  "slice text a b = take (b - a) (drop a text)"

text \<open>
  \<^verbatim>\<open>/\s/.test(c)\<close> on a single code unit: the ECMAScript classes WhiteSpace and
  LineTerminator.
\<close>

definition is_ws :: "nat \<Rightarrow> bool" where
  "is_ws c \<longleftrightarrow>
     c = 9 \<or> c = 10 \<or> c = 11 \<or> c = 12 \<or> c = 13 \<or> c = 32 \<or> c = 160 \<or> c = 5760 \<or>
     (8192 \<le> c \<and> c \<le> 8202) \<or> c = 8232 \<or> c = 8233 \<or> c = 8239 \<or> c = 8287 \<or>
     c = 12288 \<or> c = 65279"

section \<open>The morph trie (trie.js)\<close>

text \<open>
  A trie level is an object from one-unit strings to nodes
  \<^verbatim>\<open>{ ismorph, children }\<close>; the root is such a level.
\<close>

datatype trie_node = TrieNode (ismorph: bool) (children: "(nat \<times> trie_node) list")

type_synonym trie = "(nat \<times> trie_node) list"

text \<open>
  The loop of \<^verbatim>\<open>findMorphsFromTrie\<close>: \<open>node\<close> is the current level, \<open>idx\<close> the cursor,
  \<open>found\<close> the matches pushed so far, each a pair (morph, end).
\<close>

function findMorphs_loop ::
  "trie \<Rightarrow> jstr \<Rightarrow> nat \<Rightarrow> nat \<Rightarrow> (jstr \<times> nat) list \<Rightarrow> (jstr \<times> nat) list" where
  "findMorphs_loop node text start idx found =
     (if idx < length text then
        (case map_of node (text ! idx) of
           None \<Rightarrow> found
         | Some n \<Rightarrow>
             findMorphs_loop (children n) text start (Suc idx)
               (if ismorph n then found @ [(slice text start (Suc idx), Suc idx)] else found))
      else found)"
  by pat_completeness auto
termination
  by (relation "measure (\<lambda>(node, text, start, idx, found). length text - idx)") auto

declare findMorphs_loop.simps [simp del]

definition findMorphsFromTrie :: "trie \<Rightarrow> jstr \<Rightarrow> nat \<Rightarrow> (jstr \<times> nat) list" where
  "findMorphsFromTrie trie text start = findMorphs_loop trie text start start []"

text \<open>
  \<^verbatim>\<open>buildMorphTrie\<close>: inserting one morph below a level. An absent child is created
  with \<open>ismorph = false\<close>; the node of the last unit is marked; the walk continues
  in the child's \<open>children\<close>.
\<close>

fun level_put :: "trie \<Rightarrow> nat \<Rightarrow> trie_node \<Rightarrow> trie" where
  "level_put [] ch n = [(ch, n)]"
| "level_put ((c, m) # rest) ch n =
     (if c = ch then (ch, n) # rest else (c, m) # level_put rest ch n)"

fun trie_insert :: "jstr \<Rightarrow> trie \<Rightarrow> trie" where
  "trie_insert [] node = node"
| "trie_insert (ch # rest) node =
     (let n = (case map_of node ch of None \<Rightarrow> TrieNode False [] | Some n \<Rightarrow> n);
          n' = TrieNode (if rest = [] then True else ismorph n) (trie_insert rest (children n))
      in level_put node ch n')"

definition buildMorphTrie :: "(jstr \<times> jstr) list \<Rightarrow> trie" where
  "buildMorphTrie morphs = foldl (\<lambda>root m. trie_insert (fst m) root) [] morphs"

text \<open>The strings a trie holds: the paths from the root that end in a marked node.\<close>

fun trie_morph :: "trie \<Rightarrow> jstr \<Rightarrow> bool" where
  "trie_morph node [] = False"
| "trie_morph node (ch # rest) =
     (case map_of node ch of
        None \<Rightarrow> False
      | Some n \<Rightarrow> if rest = [] then ismorph n else trie_morph (children n) rest)"

section \<open>Tokens, words and DP states (viterbi.js)\<close>

datatype kind = Text | Whitespace | Skipped

text \<open>
  A token object \<^verbatim>\<open>{ morph, pos, type, transProb }\<close>; the field \<^verbatim>\<open>type\<close> is \<open>kind\<close>
  here. A word object is \<^verbatim>\<open>{ tokens: [...] }\<close>.
\<close>

record token =
  morph :: jstr
  pos :: jstr
  kind :: kind
  transProb :: real

record word =
  tokens :: "token list"

text \<open>
  A DP state \<^verbatim>\<open>{ score, backPointer, token }\<close>. State objects are never mutated after
  their creation (a table cell is overwritten with a fresh object), so a
  back-pointer is modelled by the value it points to.
\<close>

datatype 's state = State (score: 's) (backPointer: "'s state option") (token: "token option")

text \<open>
  Scores are IEEE doubles in the source. The model is parametric in the score
  arithmetic: the type \<open>'s\<close> of scores, the initial score \<open>0\<close>, \<^verbatim>\<open>Math.log\<close>, \<open>+\<close>, \<open>-\<close>
  and \<open><\<close> (\<open>a > b\<close> is \<open>b < a\<close>). Every theorem below holds for every such arithmetic.
  Probabilities (the literals \<open>1.0\<close> and \<open>1e-8\<close> and the entries of the transition
  table) are real numbers; a number is truthy when it is not \<open>0\<close>.
\<close>

record 's arith =
  num_zero :: 's
  num_log :: "real \<Rightarrow> 's"
  num_add :: "'s \<Rightarrow> 's \<Rightarrow> 's"
  num_sub :: "'s \<Rightarrow> 's \<Rightarrow> 's"
  num_lt :: "'s \<Rightarrow> 's \<Rightarrow> bool"

text \<open>The arithmetic of the reals, the idealised reading of the doubles.\<close>

definition real_arith :: "real arith" where
  "real_arith = \<lparr>num_zero = 0, num_log = ln, num_add = (+), num_sub = (-), num_lt = (<)\<rparr>"

subsection \<open>Rows of the table\<close>

text \<open>
  A row \<^verbatim>\<open>viterbiTable[i]\<close> is an object from PoS tags to states: an association list
  in creation order. Assigning to an existing key keeps its place; a new key goes
  last.
\<close>

type_synonym 's row = "(jstr \<times> 's state) list"

type_synonym 's table = "'s row list"

fun row_put :: "'s row \<Rightarrow> jstr \<Rightarrow> 's state \<Rightarrow> 's row" where
  "row_put [] k v = [(k, v)]"
| "row_put ((k', v') # r) k v = (if k' = k then (k, v) # r else (k', v') # row_put r k v)"

text \<open>
  \<^verbatim>\<open>for (const k in obj)\<close> visits the keys that are array indices (canonical decimal
  numerals below \<open>2^32 - 1\<close>) in ascending numeric order, then the other keys in
  creation order.
\<close>

definition digit :: "nat \<Rightarrow> bool" where
  "digit c \<longleftrightarrow> 48 \<le> c \<and> c \<le> 57"

definition dec_value :: "jstr \<Rightarrow> nat" where
  "dec_value s = foldl (\<lambda>n c. 10 * n + (c - 48)) 0 s"

definition array_index :: "jstr \<Rightarrow> bool" where
  "array_index s \<longleftrightarrow>
     s \<noteq> [] \<and> list_all digit s \<and> (if hd s = 48 then length s = 1 else True) \<and>
     dec_value s < 4294967295"

definition forin_keys :: "(jstr \<times> 'v) list \<Rightarrow> jstr list" where
  "forin_keys obj =
     sort_key dec_value (filter array_index (map fst obj)) @
     filter (\<lambda>k. \<not> array_index k) (map fst obj)"

text \<open>
  \<^verbatim>\<open>viterbiTable[i]\<close> read in a \<^verbatim>\<open>for ... in\<close> head: beyond the array it is
  \<^verbatim>\<open>undefined\<close>, over which the loop visits nothing.
\<close>

definition row_at :: "'s table \<Rightarrow> nat \<Rightarrow> 's row" where
  "row_at viterbiTable i = (if i < length viterbiTable then viterbiTable ! i else [])"

subsection \<open>updateViterbiTable\<close>

text \<open>
  The function mutates the table; the model returns the new table. Reading a cell
  of a row beyond the array throws a TypeError: the result \<open>None\<close>. When the row has
  no own cell for \<open>nextPos\<close> and \<open>nextPos\<close> names a member of \<^verbatim>\<open>Object.prototype\<close>, the
  read \<^verbatim>\<open>viterbiTable[nextIdx][nextPos]\<close> finds that member: it is truthy and its
  \<^verbatim>\<open>score\<close> is \<^verbatim>\<open>undefined\<close>, which is not less than any number, so nothing is written.
  The parameters \<open>lastPos\<close> and \<open>prevIdx\<close> are unused in the source as well.
\<close>

definition updateViterbiTable ::
  "'s arith \<Rightarrow> 's table \<Rightarrow> nat \<Rightarrow> jstr \<Rightarrow> 's state \<Rightarrow> token \<Rightarrow> 's \<Rightarrow> jstr \<Rightarrow> nat \<Rightarrow>
   's table option" where
  "updateViterbiTable A viterbiTable nextIdx nextPos prevState tok addScore lastPos prevIdx =
     (let newScore = num_add A (score prevState) addScore in
      if nextIdx < length viterbiTable then
        (if (case map_of (viterbiTable ! nextIdx) nextPos of
               None \<Rightarrow> \<not> proto_member nextPos
             | Some old \<Rightarrow> num_lt A (score old) newScore)
         then Some (viterbiTable[nextIdx :=
                 row_put (viterbiTable ! nextIdx) nextPos
                   (State newScore (Some prevState) (Some tok))])
         else Some viterbiTable)
      else None)"

subsection \<open>The transition policy\<close>

text \<open>
  Lines 68 to 71 of the forward pass. The result \<open>Some p\<close> is the number \<open>p\<close>; the
  result \<open>None\<close> says that \<open>transProb\<close> is a member of \<^verbatim>\<open>Object.prototype\<close>, read
  through \<^verbatim>\<open>transitionMap[prevPos][posTag]\<close> because \<open>posTag\<close> has that name: such a
  value is truthy, and its logarithm is NaN. A table entry \<open>0\<close> is falsy and falls
  to the second branch. When \<open>prevPos\<close> names a member and has no own entry,
  \<^verbatim>\<open>transitionMap[prevPos]\<close> is that member, whose property \<open>posTag\<close> is again a member
  of \<^verbatim>\<open>Object.prototype\<close> if \<open>posTag\<close> names one, save that the \<^verbatim>\<open>__proto__\<close> of
  \<^verbatim>\<open>Object.prototype\<close> is \<^verbatim>\<open>null\<close>, which is falsy. (In the forward pass \<open>prevPos\<close> is a
  key of a row, and a row never holds the name of a member: lemma \<open>chain_plain\<close>
  below.)
\<close>

type_synonym transitions = "jstr \<rightharpoonup> (jstr \<rightharpoonup> real)"

definition transition_prob :: "transitions \<Rightarrow> jstr \<Rightarrow> jstr \<Rightarrow> real option" where
  "transition_prob transitionMap prevPos posTag =
     (if prevPos = [] then Some 1
      else
        (case transitionMap prevPos of
           Some m \<Rightarrow>
             (case m posTag of
                Some v \<Rightarrow> if v \<noteq> 0 then Some v else Some (1 / 10 ^ 8)
              | None \<Rightarrow> if proto_member posTag then None else Some (1 / 10 ^ 8))
         | None \<Rightarrow>
             if proto_member prevPos \<and> proto_member posTag \<and>
                \<not> (prevPos = lit ''__proto__'' \<and> posTag = lit ''__proto__'')
             then None
             else Some (1 / 10 ^ 8)))"

subsection \<open>The forward pass\<close>

text \<open>The inner \<^verbatim>\<open>while\<close> of rule 1: the end of the whitespace run from \<open>end\<close>.\<close>

function ws_end :: "jstr \<Rightarrow> nat \<Rightarrow> nat" where
  "ws_end text e = (if e < length text \<and> is_ws (text ! e) then ws_end text (Suc e) else e)"
  by pat_completeness auto
termination
  by (relation "measure (\<lambda>(text, e). length text - e)") auto

declare ws_end.simps [simp del]

text \<open>
  The loop over \<open>posTags\<close> (lines 65 to 78) for one match \<open>(m, endIdx)\<close>. When
  \<open>transProb\<close> is not a number, the score is NaN and \<open>posTag\<close> names a member of
  \<^verbatim>\<open>Object.prototype\<close>: the cell that \<open>updateViterbiTable\<close> reads is truthy (own or
  inherited) and its score is not less than NaN, so the call writes nothing; it
  throws when the row is beyond the array.
\<close>

fun propose_tags ::
  "'s arith \<Rightarrow> transitions \<Rightarrow> 's state \<Rightarrow> jstr \<Rightarrow> jstr \<Rightarrow> nat \<Rightarrow> nat \<Rightarrow> jstr list \<Rightarrow>
   's table \<Rightarrow> 's table option" where
  "propose_tags A transitionMap prevState prevPos m endIdx idx [] viterbiTable =
     Some viterbiTable"
| "propose_tags A transitionMap prevState prevPos m endIdx idx (posTag # rest) viterbiTable =
     (case transition_prob transitionMap prevPos posTag of
        None \<Rightarrow>
          if endIdx < length viterbiTable
          then propose_tags A transitionMap prevState prevPos m endIdx idx rest viterbiTable
          else None
      | Some p \<Rightarrow>
          (let sc = num_add A (score prevState) (num_log A p);
               morphObj = \<lparr>morph = m, pos = posTag, kind = Text, transProb = p\<rparr>
           in case updateViterbiTable A viterbiTable endIdx posTag prevState morphObj
                     (num_sub A sc (score prevState)) posTag idx of
                None \<Rightarrow> None
              | Some t \<Rightarrow> propose_tags A transitionMap prevState prevPos m endIdx idx rest t))"

text \<open>
  The loop over \<open>foundMorphs\<close> (lines 59 to 79). When \<open>posMap\<close> has no own entry for
  the morph and the morph names a member of \<^verbatim>\<open>Object.prototype\<close>, \<^verbatim>\<open>posMap[morph]\<close> is
  that member: it is truthy, its \<^verbatim>\<open>pos\<close> is \<^verbatim>\<open>undefined\<close>, and \<^verbatim>\<open>posTags.length\<close> throws
  a TypeError.
\<close>

fun propose_morphs ::
  "'s arith \<Rightarrow> (jstr \<rightharpoonup> jstr list) \<Rightarrow> transitions \<Rightarrow> 's state \<Rightarrow> jstr \<Rightarrow> nat \<Rightarrow>
   (jstr \<times> nat) list \<Rightarrow> 's table \<Rightarrow> 's table option" where
  "propose_morphs A posMap transitionMap prevState prevPos idx [] viterbiTable =
     Some viterbiTable"
| "propose_morphs A posMap transitionMap prevState prevPos idx ((m, endIdx) # rest) viterbiTable =
     (case (case posMap m of
              Some tags \<Rightarrow> Some tags
            | None \<Rightarrow> if proto_member m then None else Some []) of
        None \<Rightarrow> None
      | Some posTags \<Rightarrow>
          (case propose_tags A transitionMap prevState prevPos m endIdx idx posTags
                  viterbiTable of
             None \<Rightarrow> None
           | Some t \<Rightarrow> propose_morphs A posMap transitionMap prevState prevPos idx rest t))"

text \<open>
  The body of the loop over \<open>prevPos\<close> (lines 44 to 85). \<open>matched\<close> is set by the first
  iteration over \<open>foundMorphs\<close>, hence true exactly when the list is non-empty. A key
  of the row whose value were \<^verbatim>\<open>undefined\<close> would make \<^verbatim>\<open>prevState.score\<close> throw.
\<close>

definition visit_state ::
  "'s arith \<Rightarrow> jstr \<Rightarrow> trie \<Rightarrow> (jstr \<rightharpoonup> jstr list) \<Rightarrow> transitions \<Rightarrow>
   (trie \<Rightarrow> jstr \<Rightarrow> nat \<Rightarrow> (jstr \<times> nat) list) \<Rightarrow> nat \<Rightarrow> jstr \<Rightarrow> 's table \<Rightarrow> 's table option" where
  "visit_state A text trie posMap transitionMap findMorphs idx prevPos viterbiTable =
     (case map_of (row_at viterbiTable idx) prevPos of
        None \<Rightarrow> None
      | Some prevState \<Rightarrow>
          if is_ws (text ! idx) then
            (let e = ws_end text idx;
                 wsToken = \<lparr>morph = slice text idx e, pos = [], kind = Whitespace, transProb = 1\<rparr>
             in updateViterbiTable A viterbiTable e prevPos prevState wsToken (num_zero A)
                  prevPos idx)
          else
            (let foundMorphs = findMorphs trie text idx
             in case propose_morphs A posMap transitionMap prevState prevPos idx foundMorphs
                       viterbiTable of
                  None \<Rightarrow> None
                | Some t \<Rightarrow>
                    if foundMorphs = [] then
                      (let skipToken =
                             \<lparr>morph = [text ! idx], pos = [], kind = Skipped, transProb = 1 / 10 ^ 8\<rparr>
                       in updateViterbiTable A t (idx + 1) prevPos prevState skipToken
                            (num_log A (1 / 10 ^ 8)) prevPos idx)
                    else Some t))"

text \<open>The loop over the keys of row \<open>idx\<close> (line 43).\<close>

fun visit_keys ::
  "'s arith \<Rightarrow> jstr \<Rightarrow> trie \<Rightarrow> (jstr \<rightharpoonup> jstr list) \<Rightarrow> transitions \<Rightarrow>
   (trie \<Rightarrow> jstr \<Rightarrow> nat \<Rightarrow> (jstr \<times> nat) list) \<Rightarrow> nat \<Rightarrow> jstr list \<Rightarrow> 's table \<Rightarrow> 's table option" where
  "visit_keys A text trie posMap transitionMap findMorphs idx [] viterbiTable = Some viterbiTable"
| "visit_keys A text trie posMap transitionMap findMorphs idx (prevPos # ks) viterbiTable =
     (case visit_state A text trie posMap transitionMap findMorphs idx prevPos viterbiTable of
        None \<Rightarrow> None
      | Some t \<Rightarrow> visit_keys A text trie posMap transitionMap findMorphs idx ks t)"

text \<open>The loop over the positions (line 41).\<close>

function forward_loop ::
  "'s arith \<Rightarrow> jstr \<Rightarrow> trie \<Rightarrow> (jstr \<rightharpoonup> jstr list) \<Rightarrow> transitions \<Rightarrow>
   (trie \<Rightarrow> jstr \<Rightarrow> nat \<Rightarrow> (jstr \<times> nat) list) \<Rightarrow> nat \<Rightarrow> 's table \<Rightarrow> 's table option" where
  "forward_loop A text trie posMap transitionMap findMorphs idx viterbiTable =
     (if idx < length text then
        (case visit_keys A text trie posMap transitionMap findMorphs idx
                (forin_keys (row_at viterbiTable idx)) viterbiTable of
           None \<Rightarrow> None
         | Some t \<Rightarrow> forward_loop A text trie posMap transitionMap findMorphs (Suc idx) t)
      else Some viterbiTable)"
  by pat_completeness auto
termination
  by (relation "measure (\<lambda>(A, text, trie, posMap, transitionMap, findMorphs, idx, t).
        length text - idx)") auto

declare forward_loop.simps [simp del]

text \<open>Lines 35 to 38: one empty row per position \<open>0..N\<close>, and the initial state.\<close>

definition init_table :: "'s arith \<Rightarrow> jstr \<Rightarrow> 's table" where
  "init_table A text =
     (replicate (length text + 1) [])[0 := [([], State (num_zero A) None None)]]"

definition forward_pass ::
  "'s arith \<Rightarrow> jstr \<Rightarrow> trie \<Rightarrow> (jstr \<rightharpoonup> jstr list) \<Rightarrow> transitions \<Rightarrow>
   (trie \<Rightarrow> jstr \<Rightarrow> nat \<Rightarrow> (jstr \<times> nat) list) \<Rightarrow> 's table option" where
  "forward_pass A text trie posMap transitionMap findMorphs =
     forward_loop A text trie posMap transitionMap findMorphs 0 (init_table A text)"

subsection \<open>Best end state and backtrace\<close>

text \<open>Lines 91 to 97. The row is not written in this loop, so every key has its value.\<close>

fun select_best :: "'s arith \<Rightarrow> 's row \<Rightarrow> 's state option \<Rightarrow> jstr list \<Rightarrow> 's state option" where
  "select_best A r best [] = best"
| "select_best A r best (posTag # ks) =
     (case map_of r posTag of
        None \<Rightarrow> select_best A r best ks
      | Some cand \<Rightarrow>
          select_best A r
            (case best of
               None \<Rightarrow> Some cand
             | Some b \<Rightarrow> if num_lt A (score b) (score cand) then Some cand else Some b)
            ks)"

text \<open>Lines 100 to 105: the tokens from the best state back to the first state without one.\<close>

fun backtrace :: "'s state \<Rightarrow> token list" where
  "backtrace (State sc bp tk) =
     (case tk of
        None \<Rightarrow> []
      | Some t \<Rightarrow> t # (case bp of None \<Rightarrow> [] | Some prev \<Rightarrow> backtrace prev))"

subsection \<open>recombineTokens\<close>

text \<open>
  The \<^verbatim>\<open>for ... of\<close> over the successors listed for \<open>cur.pos\<close>: whether some iteration
  merges (the first one that does breaks the loop).
\<close>

fun merge_scan :: "token list \<Rightarrow> nat \<Rightarrow> jstr list \<Rightarrow> bool" where
  "merge_scan toks i [] = False"
| "merge_scan toks i (nextPos # rest) =
     (if Suc i < length toks \<and> pos (toks ! Suc i) = nextPos \<and>
         kind (toks ! i) = Text \<and> kind (toks ! Suc i) = Text
      then True else merge_scan toks i rest)"

text \<open>
  The guard and the loop of lines 121 to 136: whether Token \<open>i\<close> is merged with its
  successor. When the rule set has no own entry for \<^verbatim>\<open>cur.pos\<close> and \<^verbatim>\<open>cur.pos\<close> names a
  member of \<^verbatim>\<open>Object.prototype\<close>, \<^verbatim>\<open>recombinationMap[cur.pos]\<close> is that member: it is
  truthy and not iterable, and \<^verbatim>\<open>for ... of\<close> throws a TypeError, the result \<open>None\<close>.
\<close>

definition merges :: "token list \<Rightarrow> (jstr \<rightharpoonup> jstr list) \<Rightarrow> nat \<Rightarrow> bool option" where
  "merges toks recombinationMap i =
     (if pos (toks ! i) \<noteq> [] then
        (case recombinationMap (pos (toks ! i)) of
           None \<Rightarrow> if proto_member (pos (toks ! i)) then None else Some False
         | Some succs \<Rightarrow> Some (merge_scan toks i succs))
      else Some False)"

function recombine_loop ::
  "token list \<Rightarrow> (jstr \<rightharpoonup> jstr list) \<Rightarrow> nat \<Rightarrow> word list \<Rightarrow> word list option" where
  "recombine_loop toks recombinationMap i result =
     (if i < length toks then
        (case merges toks recombinationMap i of
           None \<Rightarrow> None
         | Some merged \<Rightarrow>
             if merged
             then recombine_loop toks recombinationMap (i + 2)
                    (result @ [\<lparr>tokens = [toks ! i, toks ! (i + 1)]\<rparr>])
             else recombine_loop toks recombinationMap (i + 1)
                    (result @ [\<lparr>tokens = [toks ! i]\<rparr>]))
      else Some result)"
  by pat_completeness auto
termination
  by (relation "measure (\<lambda>(toks, recombinationMap, i, result). length toks - i)") auto

declare recombine_loop.simps [simp del]

definition recombineTokens ::
  "token list \<Rightarrow> (jstr \<rightharpoonup> jstr list) \<Rightarrow> word list option" where
  "recombineTokens toks recombinationMap = recombine_loop toks recombinationMap 0 []"

subsection \<open>viterbiSegment and buildPosMap\<close>

text \<open>
  The source takes the trie query as its fifth parameter (named like the import
  \<^verbatim>\<open>findMorphsFromTrie\<close> that it shadows, and bound to it by the caller in
  \<^verbatim>\<open>main.js\<close>); it is the parameter \<open>findMorphs\<close> here. The result \<open>None\<close> stands for
  a thrown TypeError; the source has no other way to fail.
\<close>

definition viterbiSegment ::
  "'s arith \<Rightarrow> jstr \<Rightarrow> trie \<Rightarrow> (jstr \<rightharpoonup> jstr list) \<Rightarrow> transitions \<Rightarrow>
   (trie \<Rightarrow> jstr \<Rightarrow> nat \<Rightarrow> (jstr \<times> nat) list) \<Rightarrow> (jstr \<rightharpoonup> jstr list) \<Rightarrow> word list option" where
  "viterbiSegment A text trie posMap transitionMap findMorphs recombinationMap =
     (case forward_pass A text trie posMap transitionMap findMorphs of
        None \<Rightarrow> None
      | Some viterbiTable \<Rightarrow>
          (let last_row = row_at viterbiTable (length text);
               best = select_best A last_row None (forin_keys last_row);
               toks = rev (case best of None \<Rightarrow> [] | Some s \<Rightarrow> backtrace s)
           in recombineTokens toks recombinationMap))"

text \<open>
  \<^verbatim>\<open>buildPosMap\<close>: the tags of each morph, in order of first occurrence, without
  repetition. For a morph that names a member of \<^verbatim>\<open>Object.prototype\<close> the test
  \<^verbatim>\<open>!posMap[morph]\<close> finds the member, no entry is created, and
  \<^verbatim>\<open>posMap[morph].pos.includes\<close> throws a TypeError: the result \<open>None\<close>.
\<close>

fun posMap_loop ::
  "(jstr \<times> jstr) list \<Rightarrow> (jstr \<rightharpoonup> jstr list) \<Rightarrow> (jstr \<rightharpoonup> jstr list) option" where
  "posMap_loop [] posMap = Some posMap"
| "posMap_loop ((m, p) # rest) posMap =
     (case posMap m of
        None \<Rightarrow>
          if proto_member m then None else posMap_loop rest (posMap(m \<mapsto> [p]))
      | Some tags \<Rightarrow>
          posMap_loop rest (posMap(m \<mapsto> (if p \<in> set tags then tags else tags @ [p]))))"

definition buildPosMap :: "(jstr \<times> jstr) list \<Rightarrow> (jstr \<rightharpoonup> jstr list) option" where
  "buildPosMap morphs = posMap_loop morphs Map.empty"

section \<open>Properties of the trie query\<close>

lemma slice_prefix: "prefix m (drop start tx) \<Longrightarrow> slice tx start (start + length m) = m"
  by (auto simp: slice_def prefix_def)

definition trie_prefixes :: "trie \<Rightarrow> jstr \<Rightarrow> nat \<Rightarrow> jstr set" where
  "trie_prefixes node tx idx = {m. prefix m (drop idx tx) \<and> trie_morph node m}"

lemma trie_prefixes_end: "\<not> idx < length tx \<Longrightarrow> trie_prefixes node tx idx = {}"
  by (auto simp: trie_prefixes_def)

lemma prefix_drop_Cons:
  "idx < length tx \<Longrightarrow>
   prefix (c # r) (drop idx tx) \<longleftrightarrow> c = tx ! idx \<and> prefix r (drop (Suc idx) tx)"
  by (simp add: Cons_nth_drop_Suc[symmetric])

lemma trie_prefixes_step:
  assumes "idx < length tx"
  shows "trie_prefixes node tx idx =
     (case map_of node (tx ! idx) of
        None \<Rightarrow> {}
      | Some n \<Rightarrow> (if ismorph n then {[tx ! idx]} else {}) \<union>
                  Cons (tx ! idx) ` trie_prefixes (children n) tx (Suc idx))"
proof -
  have mem: "m \<in> trie_prefixes node tx idx \<longleftrightarrow>
      (\<exists>r. m = tx ! idx # r \<and> prefix r (drop (Suc idx) tx) \<and> trie_morph node (tx ! idx # r))" for m
    using assms by (cases m) (auto simp: trie_prefixes_def prefix_drop_Cons)
  show ?thesis
  proof (cases "map_of node (tx ! idx)")
    case None
    then show ?thesis using mem by auto
  next
    case (Some n)
    have nonempty: "trie_morph (children n) r \<Longrightarrow> r \<noteq> []" for r
      by auto
    have step: "trie_morph node (tx ! idx # r) \<longleftrightarrow>
        (r = [] \<and> ismorph n) \<or> (r \<noteq> [] \<and> trie_morph (children n) r)" for r
      using Some by simp
    have "m \<in> trie_prefixes node tx idx \<longleftrightarrow>
       m \<in> (if ismorph n then {[tx ! idx]} else {}) \<union>
                  Cons (tx ! idx) ` trie_prefixes (children n) tx (Suc idx)" for m
    proof
      assume "m \<in> trie_prefixes node tx idx"
      then obtain r where r: "m = tx ! idx # r" "prefix r (drop (Suc idx) tx)"
          "trie_morph node (tx ! idx # r)"
        unfolding mem by blast
      show "m \<in> (if ismorph n then {[tx ! idx]} else {}) \<union>
                  Cons (tx ! idx) ` trie_prefixes (children n) tx (Suc idx)"
      proof (cases "r = []")
        case True
        with r step show ?thesis by simp
      next
        case False
        with r step have "r \<in> trie_prefixes (children n) tx (Suc idx)"
          by (simp add: trie_prefixes_def)
        with r(1) show ?thesis by blast
      qed
    next
      assume "m \<in> (if ismorph n then {[tx ! idx]} else {}) \<union>
                  Cons (tx ! idx) ` trie_prefixes (children n) tx (Suc idx)"
      then consider "ismorph n" "m = [tx ! idx]"
        | r where "m = tx ! idx # r" "r \<in> trie_prefixes (children n) tx (Suc idx)"
        by (auto split: if_splits)
      then show "m \<in> trie_prefixes node tx idx"
      proof cases
        case 1
        then show ?thesis unfolding mem using step by simp
      next
        case 2
        then have "prefix r (drop (Suc idx) tx)" "trie_morph (children n) r"
          by (simp_all add: trie_prefixes_def)
        with 2(1) nonempty[of r] show ?thesis unfolding mem using step by simp
      qed
    qed
    then show ?thesis using Some by auto
  qed
qed

lemma findMorphs_loop_set:
  "set (findMorphs_loop node tx start idx found) =
     set found \<union> (\<lambda>m. (slice tx start (idx + length m), idx + length m)) ` trie_prefixes node tx idx"
proof (induction node tx start idx found rule: findMorphs_loop.induct)
  case (1 node tx start idx found)
  show ?case
  proof (cases "idx < length tx")
    case False
    then show ?thesis by (subst findMorphs_loop.simps) (simp add: trie_prefixes_end)
  next
    case True
    show ?thesis
    proof (cases "map_of node (tx ! idx)")
      case None
      with True show ?thesis by (subst findMorphs_loop.simps) (simp add: trie_prefixes_step)
    next
      case (Some n)
      with True "1.IH"[OF True Some] show ?thesis
        by (subst findMorphs_loop.simps) (auto simp: trie_prefixes_step image_Un image_image)
    qed
  qed
qed

lemma findMorphs_loop_sorted:
  "sorted_wrt (<) (map snd found) \<Longrightarrow> \<forall>x\<in>set found. snd x \<le> idx \<Longrightarrow>
   sorted_wrt (<) (map snd (findMorphs_loop node tx start idx found))"
proof (induction node tx start idx found rule: findMorphs_loop.induct)
  case (1 node tx start idx found)
  show ?case
  proof (cases "idx < length tx")
    case False
    with 1 show ?thesis by (subst findMorphs_loop.simps) simp
  next
    case True
    show ?thesis
    proof (cases "map_of node (tx ! idx)")
      case None
      with True "1.prems" show ?thesis by (subst findMorphs_loop.simps) simp
    next
      case (Some n)
      have "sorted_wrt (<) (map snd (findMorphs_loop (children n) tx start (Suc idx)
               (if ismorph n then found @ [(slice tx start (Suc idx), Suc idx)] else found)))"
        apply (rule "1.IH"[OF True Some])
        using "1.prems" by (auto simp: sorted_wrt_append less_Suc_eq_le le_SucI)
      with True Some show ?thesis
        by (subst findMorphs_loop.simps) simp
    qed
  qed
qed

text \<open>Example data: the trie of the words cat, car and cart.\<close>

definition cat_trie :: trie where
  "cat_trie =
     buildMorphTrie [(lit ''cat'', lit ''n''), (lit ''car'', lit ''n''), (lit ''cart'', lit ''n'')]"

lemma cat_trie_eq:
  "cat_trie =
     [(99, TrieNode False [(97, TrieNode False
        [(116, TrieNode True []), (114, TrieNode True [(116, TrieNode True [])])])])]"
  by (simp add: cat_trie_def buildMorphTrie_def lit_def Let_def)

lemma cat_trie_carts:
  "findMorphsFromTrie cat_trie (lit ''carts'') 0 = [(lit ''car'', 3), (lit ''cart'', 4)]"
  by (simp add: cat_trie_eq findMorphsFromTrie_def findMorphs_loop.simps lit_def slice_def)

text \<open>
  C9. For every trie, text and start position, the matches returned by
  \<open>findMorphsFromTrie\<close> are exactly the pairs \<open>(m, start + length m)\<close> where \<open>m\<close> is a
  prefix of \<open>text[start..]\<close> that is a morph of the trie. They are emitted once each,
  in order of increasing end (the depth of each marked node visited), and the
  result is empty when the first character has no child.
\<close>

theorem findMorphs_exact:
  "set (findMorphsFromTrie trie tx start) =
     {(m, e). prefix m (drop start tx) \<and> trie_morph trie m \<and> e = start + length m} \<and>
   sorted_wrt (<) (map snd (findMorphsFromTrie trie tx start)) \<and>
   (start < length tx \<and> map_of trie (tx ! start) = None \<longrightarrow>
      findMorphsFromTrie trie tx start = [])"
proof (intro conjI)
  show "set (findMorphsFromTrie trie tx start) =
     {(m, e). prefix m (drop start tx) \<and> trie_morph trie m \<and> e = start + length m}"
    unfolding findMorphsFromTrie_def findMorphs_loop_set trie_prefixes_def
    by (auto simp: slice_prefix image_iff)
  show "sorted_wrt (<) (map snd (findMorphsFromTrie trie tx start))"
    unfolding findMorphsFromTrie_def by (rule findMorphs_loop_sorted) simp_all
  show "start < length tx \<and> map_of trie (tx ! start) = None \<longrightarrow>
      findMorphsFromTrie trie tx start = []"
    unfolding findMorphsFromTrie_def by (subst findMorphs_loop.simps) simp
qed

theorem findMorphs_exact_witness:
  "(0::nat) < length (lit ''dog'') \<and> map_of cat_trie (lit ''dog'' ! 0) = None \<and>
   findMorphsFromTrie cat_trie (lit ''dog'') 0 = []"
  using findMorphs_exact [of cat_trie "lit ''dog''" 0]
  by (simp add: cat_trie_eq lit_def)

section \<open>Evaluation on concrete inputs\<close>

lemmas eval_defs =
  viterbiSegment_def forward_pass_def init_table_def forward_loop.simps visit_state_def
  row_at_def forin_keys_def array_index_def digit_def dec_value_def updateViterbiTable_def
  transition_prob_def proto_member_def findMorphsFromTrie_def findMorphs_loop.simps
  ws_end.simps is_ws_def slice_def recombineTokens_def recombine_loop.simps merges_def
  buildMorphTrie_def buildPosMap_def lit_def Let_def

text \<open>Example data: the dictionary, the transition table and the text of Example 1.\<close>

definition today_dict :: "(jstr \<times> jstr) list" where
  "today_dict = [([20170, 26085], lit ''noun''), ([12399], lit ''particle'')]"

definition today_posMap :: "jstr \<rightharpoonup> jstr list" where
  "today_posMap = [[20170, 26085] \<mapsto> [lit ''noun''], [12399] \<mapsto> [lit ''particle'']]"

definition today_text :: jstr where
  "today_text = [20170, 26085, 12399]"

definition example_transitions :: transitions where
  "example_transitions = [lit ''noun'' \<mapsto> [lit ''particle'' \<mapsto> 1 / 2]]"

lemma today_posMap: "buildPosMap today_dict = Some today_posMap"
  by (simp add: buildPosMap_def today_dict_def today_posMap_def proto_member_def lit_def)

text \<open>Example data: the dictionary and the text of Example 3.\<close>

definition rain_dict :: "(jstr \<times> jstr) list" where
  "rain_dict = [([38477], lit ''verb''), ([12387, 12390, 12356, 12427], lit ''suffix'')]"

definition rain_posMap :: "jstr \<rightharpoonup> jstr list" where
  "rain_posMap = [[38477] \<mapsto> [lit ''verb''], [12387, 12390, 12356, 12427] \<mapsto> [lit ''suffix'']]"

definition rain_text :: jstr where
  "rain_text = [38477, 12387, 12390, 12356, 12427]"

lemma rain_posMap: "buildPosMap rain_dict = Some rain_posMap"
  by (simp add: buildPosMap_def rain_dict_def rain_posMap_def proto_member_def lit_def)

section \<open>The Recombiner\<close>

text \<open>
  The merge condition as the specification words it: Token \<open>i\<close> has kind text, its
  PoS tag is a key of the rule set, Token \<open>i + 1\<close> exists with kind text, and its PoS
  tag is among the successors listed for that key.
\<close>

definition spec_mergeable :: "token list \<Rightarrow> (jstr \<rightharpoonup> jstr list) \<Rightarrow> nat \<Rightarrow> bool" where
  "spec_mergeable toks recombinationMap i \<longleftrightarrow>
     kind (toks ! i) = Text \<and>
     (case recombinationMap (pos (toks ! i)) of
        None \<Rightarrow> False
      | Some succs \<Rightarrow>
          Suc i < length toks \<and> kind (toks ! Suc i) = Text \<and> pos (toks ! Suc i) \<in> set succs)"

lemma merge_scan_iff:
  "merge_scan toks i succs \<longleftrightarrow>
     Suc i < length toks \<and> kind (toks ! i) = Text \<and> kind (toks ! Suc i) = Text \<and>
     pos (toks ! Suc i) \<in> set succs"
  by (induction succs) auto

text \<open>
  Token \<open>i\<close> has a PoS tag that is not a key of the rule set and names a member of
  \<^verbatim>\<open>Object.prototype\<close>.
\<close>

definition inherited_rule :: "token list \<Rightarrow> (jstr \<rightharpoonup> jstr list) \<Rightarrow> nat \<Rightarrow> bool" where
  "inherited_rule toks recombinationMap i \<longleftrightarrow>
     recombinationMap (pos (toks ! i)) = None \<and> proto_member (pos (toks ! i))"

lemma merges_iff:
  "merges toks recombinationMap i =
     (if inherited_rule toks recombinationMap i then None
      else Some (pos (toks ! i) \<noteq> [] \<and> spec_mergeable toks recombinationMap i))"
proof (cases "pos (toks ! i) = []")
  case True
  moreover have "\<not> proto_member []" by (simp add: proto_member_def lit_def)
  ultimately show ?thesis by (simp add: merges_def inherited_rule_def)
next
  case False
  then show ?thesis
    by (auto simp: merges_def spec_mergeable_def merge_scan_iff inherited_rule_def
        split: option.splits)
qed


definition rain_rules :: "jstr \<rightharpoonup> jstr list" where
  "rain_rules = [lit ''verb'' \<mapsto> [lit ''suffix'']]"






text \<open>The shape of every Word the Recombiner emits.\<close>

definition word_shape :: "(jstr \<rightharpoonup> jstr list) \<Rightarrow> word \<Rightarrow> bool" where
  "word_shape recombinationMap w \<longleftrightarrow>
     (case tokens w of
        [a] \<Rightarrow> True
      | [a, b] \<Rightarrow>
          kind a = Text \<and> kind b = Text \<and>
          (case recombinationMap (pos a) of None \<Rightarrow> False | Some succs \<Rightarrow> pos b \<in> set succs)
      | _ \<Rightarrow> False)"

lemma recombine_loop_shape:
  "list_all (word_shape rm) result \<Longrightarrow> recombine_loop toks rm i result = Some ws \<Longrightarrow>
   list_all (word_shape rm) ws"
proof (induction toks rm i result rule: recombine_loop.induct)
  case (1 toks rm i result)
  show ?case
  proof (cases "i < length toks")
    case False
    with "1.prems" show ?thesis by (subst (asm) recombine_loop.simps) simp
  next
    case True
    from "1.prems"(2) True obtain merged where mg: "merges toks rm i = Some merged"
      by (subst (asm) recombine_loop.simps) (auto split: option.splits)
    show ?thesis
    proof (cases merged)
      case m: True
      with mg have "word_shape rm \<lparr>tokens = [toks ! i, toks ! (i + 1)]\<rparr>"
        by (auto simp: merges_iff spec_mergeable_def word_shape_def
            split: option.splits if_splits)
      with "1.prems"(1)
      have sh: "list_all (word_shape rm) (result @ [\<lparr>tokens = [toks ! i, toks ! (i + 1)]\<rparr>])"
        by simp
      from "1.prems"(2) True mg m
      have "recombine_loop toks rm (i + 2)
          (result @ [\<lparr>tokens = [toks ! i, toks ! (i + 1)]\<rparr>]) = Some ws"
        by (subst (asm) recombine_loop.simps) simp
      from "1.IH"(1)[OF True mg m sh this] show ?thesis .
    next
      case m: False
      have "word_shape rm \<lparr>tokens = [toks ! i]\<rparr>"
        by (simp add: word_shape_def)
      with "1.prems"(1) have sh: "list_all (word_shape rm) (result @ [\<lparr>tokens = [toks ! i]\<rparr>])"
        by simp
      from "1.prems"(2) True mg m
      have "recombine_loop toks rm (i + 1) (result @ [\<lparr>tokens = [toks ! i]\<rparr>]) = Some ws"
        by (subst (asm) recombine_loop.simps) simp
      from "1.IH"(2)[OF True mg m sh this] show ?thesis .
    qed
  qed
qed

lemma recombine_loop_concat:
  "i \<le> length toks \<Longrightarrow> recombine_loop toks rm i result = Some ws \<Longrightarrow>
   concat (map tokens ws) = concat (map tokens result) @ drop i toks"
proof (induction toks rm i result rule: recombine_loop.induct)
  case (1 toks rm i result)
  show ?case
  proof (cases "i < length toks")
    case False
    with "1.prems" show ?thesis by (subst (asm) recombine_loop.simps) simp
  next
    case True
    from "1.prems"(2) True obtain merged where mg: "merges toks rm i = Some merged"
      by (subst (asm) recombine_loop.simps) (auto split: option.splits)
    show ?thesis
    proof (cases merged)
      case m: True
      with mg have lt: "Suc i < length toks"
        by (auto simp: merges_iff spec_mergeable_def split: option.splits if_splits)
      then have dr: "drop i toks = toks ! i # toks ! (i + 1) # drop (i + 2) toks"
        by (simp add: Cons_nth_drop_Suc)
      from lt have le: "i + 2 \<le> length toks" by simp
      from "1.prems"(2) True mg m
      have "recombine_loop toks rm (i + 2)
          (result @ [\<lparr>tokens = [toks ! i, toks ! (i + 1)]\<rparr>]) = Some ws"
        by (subst (asm) recombine_loop.simps) simp
      from "1.IH"(1)[OF True mg m le this] dr show ?thesis by simp
    next
      case m: False
      from True have dr: "drop i toks = toks ! i # drop (i + 1) toks"
        by (simp add: Cons_nth_drop_Suc)
      from True have le: "i + 1 \<le> length toks" by simp
      from "1.prems"(2) True mg m
      have "recombine_loop toks rm (i + 1) (result @ [\<lparr>tokens = [toks ! i]\<rparr>]) = Some ws"
        by (subst (asm) recombine_loop.simps) simp
      from "1.IH"(2)[OF True mg m le this] dr show ?thesis by simp
    qed
  qed
qed

lemma recombineTokens_concat:
  "recombineTokens toks rm = Some ws \<Longrightarrow> concat (map tokens ws) = toks"
  using recombine_loop_concat[of 0 toks rm "[]" ws] by (simp add: recombineTokens_def)

lemma rain_run:
  "viterbiSegment real_arith rain_text (buildMorphTrie rain_dict)
     rain_posMap Map.empty findMorphsFromTrie rain_rules =
   Some [\<lparr>tokens = [\<lparr>morph = [38477], pos = lit ''verb'', kind = Text, transProb = 1\<rparr>,
      \<lparr>morph = [12387, 12390, 12356, 12427], pos = lit ''suffix'', kind = Text,
        transProb = 1 / 10 ^ 8\<rparr>]\<rparr>]"
  by (simp add: eval_defs rain_dict_def rain_posMap_def rain_rules_def rain_text_def
      real_arith_def)

text \<open>
  C10. Every Word that \<open>viterbiSegment\<close> returns holds exactly one or exactly two
  Tokens; a two-Token Word has two text Tokens whose tags are a pair of the
  recombination rule set.
\<close>

theorem words_one_or_two:
  "viterbiSegment A tx trie posMap transitionMap findMorphs recombinationMap = Some ws \<Longrightarrow>
   w \<in> set ws \<Longrightarrow>
   (\<exists>a. tokens w = [a]) \<or>
   (\<exists>a b succs. tokens w = [a, b] \<and> kind a = Text \<and> kind b = Text \<and>
      recombinationMap (pos a) = Some succs \<and> pos b \<in> set succs)"
proof -
  assume run: "viterbiSegment A tx trie posMap transitionMap findMorphs recombinationMap = Some ws"
    and w: "w \<in> set ws"
  from run obtain toks where "recombineTokens toks recombinationMap = Some ws"
    by (auto simp: viterbiSegment_def Let_def split: option.splits)
  then have "recombine_loop toks recombinationMap 0 [] = Some ws"
    by (simp add: recombineTokens_def)
  with recombine_loop_shape[of recombinationMap "[]" toks 0 ws]
  have "list_all (word_shape recombinationMap) ws"
    by simp
  with w have "word_shape recombinationMap w"
    by (simp add: list_all_iff)
  then show ?thesis
    by (auto simp: word_shape_def split: list.splits option.splits)
qed

theorem words_one_or_two_witness:
  "buildPosMap rain_dict = Some rain_posMap \<and>
   viterbiSegment real_arith rain_text (buildMorphTrie rain_dict) rain_posMap
     Map.empty findMorphsFromTrie rain_rules =
     Some [\<lparr>tokens = [\<lparr>morph = [38477], pos = lit ''verb'', kind = Text, transProb = 1\<rparr>,
       \<lparr>morph = [12387, 12390, 12356, 12427], pos = lit ''suffix'', kind = Text,
         transProb = 1 / 10 ^ 8\<rparr>]\<rparr>] \<and>
   (\<exists>a b succs.
      [\<lparr>morph = [38477], pos = lit ''verb'', kind = Text, transProb = 1\<rparr>,
       \<lparr>morph = [12387, 12390, 12356, 12427], pos = lit ''suffix'', kind = Text,
         transProb = 1 / 10 ^ 8\<rparr>] = [a, b] \<and>
      kind a = Text \<and> kind b = Text \<and> rain_rules (pos a) = Some succs \<and> pos b \<in> set succs)"
  using words_one_or_two [OF rain_run, of "\<lparr>tokens = [\<lparr>morph = [38477], pos = lit ''verb'', kind = Text, transProb = 1\<rparr>,
       \<lparr>morph = [12387, 12390, 12356, 12427], pos = lit ''suffix'', kind = Text,
         transProb = 1 / 10 ^ 8\<rparr>]\<rparr>"] rain_run rain_posMap
  by simp

section \<open>Rows and updateViterbiTable\<close>

lemma map_of_row_put: "map_of (row_put r k v) = (map_of r)(k \<mapsto> v)"
  by (induction r k v rule: row_put.induct) auto

lemma keys_row_put:
  "map fst (row_put r k v) = (if k \<in> fst ` set r then map fst r else map fst r @ [k])"
  by (induction r k v rule: row_put.induct) auto

lemma distinct_row_put: "distinct (map fst r) \<Longrightarrow> distinct (map fst (row_put r k v))"
  by (simp add: keys_row_put)

lemma set_row_put: "set (row_put r k v) \<subseteq> insert (k, v) (set r)"
  by (induction r k v rule: row_put.induct) auto

lemma row_put_not_Nil: "row_put r k v \<noteq> []"
  by (cases r) (auto split: if_splits)

lemma forin_keys_set: "set (forin_keys r) = fst ` set r"
  by (auto simp: forin_keys_def)

text \<open>A table with at most one entry per tag in every row.\<close>

definition one_per_tag :: "'s table \<Rightarrow> bool" where
  "one_per_tag viterbiTable \<longleftrightarrow> list_all (\<lambda>r. distinct (map fst r)) viterbiTable"

text \<open>
  The condition under which a proposal is written: the cell holds a state of a
  lower score, or the cell is empty and its tag is not the name of a member of
  \<^verbatim>\<open>Object.prototype\<close>.
\<close>

definition overwrites :: "'s arith \<Rightarrow> 's table \<Rightarrow> nat \<Rightarrow> jstr \<Rightarrow> 's \<Rightarrow> bool" where
  "overwrites A viterbiTable nextIdx nextPos newScore \<longleftrightarrow>
     (case map_of (viterbiTable ! nextIdx) nextPos of
        None \<Rightarrow> \<not> proto_member nextPos
      | Some old \<Rightarrow> num_lt A (score old) newScore)"

lemma update_written:
  assumes "nextIdx < length t"
    and "overwrites A t nextIdx nextPos (num_add A (score prevState) addScore)"
  shows "updateViterbiTable A t nextIdx nextPos prevState tok addScore lastPos prevIdx =
     Some (t[nextIdx := row_put (t ! nextIdx) nextPos
        (State (num_add A (score prevState) addScore) (Some prevState) (Some tok))])"
  using assms by (auto simp: updateViterbiTable_def overwrites_def Let_def)

lemma update_discarded:
  assumes "nextIdx < length t"
    and "\<not> overwrites A t nextIdx nextPos (num_add A (score prevState) addScore)"
  shows "updateViterbiTable A t nextIdx nextPos prevState tok addScore lastPos prevIdx = Some t"
  using assms by (auto simp: updateViterbiTable_def overwrites_def Let_def split: option.splits)

lemma update_cases:
  assumes "nextIdx < length t"
  obtains
    (written) sc where
      "updateViterbiTable A t nextIdx nextPos prevState tok addScore lastPos prevIdx =
         Some (t[nextIdx := row_put (t ! nextIdx) nextPos (State sc (Some prevState) (Some tok))])"
      "map_of (t ! nextIdx) nextPos \<noteq> None \<or> \<not> proto_member nextPos"
  | (discarded)
      "updateViterbiTable A t nextIdx nextPos prevState tok addScore lastPos prevIdx = Some t"
      "map_of (t ! nextIdx) nextPos \<noteq> None \<or> proto_member nextPos"
proof (cases "overwrites A t nextIdx nextPos (num_add A (score prevState) addScore)")
  case True
  then have "map_of (t ! nextIdx) nextPos \<noteq> None \<or> \<not> proto_member nextPos"
    by (auto simp: overwrites_def split: option.splits)
  with update_written[OF assms True] show ?thesis by (rule written)
next
  case False
  then have "map_of (t ! nextIdx) nextPos \<noteq> None \<or> proto_member nextPos"
    by (auto simp: overwrites_def split: option.splits)
  with update_discarded[OF assms False] show ?thesis by (rule discarded)
qed

lemma update_one_per_tag:
  assumes "updateViterbiTable A t nextIdx nextPos prevState tok addScore lastPos prevIdx = Some t'"
    and "one_per_tag t"
  shows "one_per_tag t'"
proof -
  from assms(1) have lt: "nextIdx < length t"
    by (auto simp: updateViterbiTable_def Let_def split: if_splits)
  have put: "one_per_tag (t[nextIdx := row_put (t ! nextIdx) nextPos s])" for s
    using assms(2) lt unfolding one_per_tag_def list_all_iff
    by (auto simp: distinct_row_put dest!: subsetD[OF set_update_subset_insert])
  from lt show ?thesis
  proof (cases rule: update_cases[where A = A and nextPos = nextPos and prevState = prevState
        and tok = tok and addScore = addScore and lastPos = lastPos and prevIdx = prevIdx])
    case (written sc)
    with assms(1) put show ?thesis by auto
  next
    case discarded
    with assms show ?thesis by auto
  qed
qed

section \<open>Whitespace runs and matches\<close>

lemma ws_end_bounds: "e \<le> length tx \<Longrightarrow> e \<le> ws_end tx e \<and> ws_end tx e \<le> length tx"
proof (induction tx e rule: ws_end.induct)
  case (1 tx e)
  show ?case
  proof (cases "e < length tx \<and> is_ws (tx ! e)")
    case True
    with "1.IH" show ?thesis by (subst (1 2) ws_end.simps) auto
  next
    case False
    with "1.prems" show ?thesis by (subst (1 2) ws_end.simps) auto
  qed
qed

lemma ws_end_greater: "e < length tx \<Longrightarrow> is_ws (tx ! e) \<Longrightarrow> e < ws_end tx e"
  using ws_end_bounds[of "Suc e" tx] by (subst ws_end.simps) auto

lemma ws_end_all: "e \<le> p \<Longrightarrow> p < ws_end tx e \<Longrightarrow> is_ws (tx ! p)"
proof (induction tx e rule: ws_end.induct)
  case (1 tx e)
  show ?case
  proof (cases "e < length tx \<and> is_ws (tx ! e)")
    case True
    with "1.prems" have "p < ws_end tx (Suc e)" by (subst (asm) ws_end.simps) simp
    with "1.IH"[OF True] "1.prems"(1) True show ?thesis
      by (cases "p = e") auto
  next
    case False
    with "1.prems" show ?thesis by (subst (asm) ws_end.simps) auto
  qed
qed

lemma ws_end_stop: "ws_end tx e < length tx \<Longrightarrow> \<not> is_ws (tx ! ws_end tx e)"
proof (induction tx e rule: ws_end.induct)
  case (1 tx e)
  show ?case
  proof (cases "e < length tx \<and> is_ws (tx ! e)")
    case True
    then have eq: "ws_end tx e = ws_end tx (Suc e)" by (subst ws_end.simps) simp
    with "1.IH"[OF True] "1.prems" show ?thesis by simp
  next
    case False
    then have eq: "ws_end tx e = e" by (subst ws_end.simps) auto
    with False "1.prems" show ?thesis by simp
  qed
qed

lemma findMorphs_member:
  assumes "(m, e) \<in> set (findMorphsFromTrie trie tx i)"
  shows "i < e \<and> e \<le> length tx \<and> m = slice tx i e \<and> m \<noteq> []"
proof -
  from assms have p: "prefix m (drop i tx)" and t: "trie_morph trie m" and e: "e = i + length m"
    unfolding findMorphsFromTrie_def findMorphs_loop_set trie_prefixes_def
    by (auto simp: slice_prefix)
  from t have ne: "m \<noteq> []" by auto
  from p obtain zs where "drop i tx = m @ zs" by (auto simp: prefix_def)
  then have "length (drop i tx) = length (m @ zs)" by simp
  then have "length m \<le> length tx - i" by simp
  with ne e p show ?thesis by (cases "i < length tx") (auto simp: slice_prefix)
qed

section \<open>Valid paths\<close>

text \<open>
  A token \<open>tok\<close> that takes a state at position \<open>i\<close> to position \<open>j\<close> by one of the three
  rules: it covers \<open>text[i..j)\<close>; a whitespace token starts on a whitespace unit and
  ends where the run from \<open>i\<close> ends; a text token is a match of the trie at \<open>i\<close>, a
  skipped token is one unit, both starting on a unit that is not whitespace.
\<close>

definition step_ok :: "jstr \<Rightarrow> trie \<Rightarrow> nat \<Rightarrow> nat \<Rightarrow> token \<Rightarrow> bool" where
  "step_ok tx trie i j tok \<longleftrightarrow>
     i < j \<and> j \<le> length tx \<and> morph tok = slice tx i j \<and>
     (case kind tok of
        Whitespace \<Rightarrow> is_ws (tx ! i) \<and> j = ws_end tx i
      | Text \<Rightarrow> \<not> is_ws (tx ! i) \<and> (morph tok, j) \<in> set (findMorphsFromTrie trie tx i)
      | Skipped \<Rightarrow> \<not> is_ws (tx ! i) \<and> j = Suc i)"

text \<open>
  The PoS tag of a state: the tag of the newest text token on its path, empty when
  there is none. Whitespace and skipped tokens pass the tag through (lines 52 and
  84); it is the key under which the state is stored.
\<close>

fun newest_tag :: "token list \<Rightarrow> jstr" where
  "newest_tag [] = []"
| "newest_tag (t # ts) = (if kind t = Text then pos t else newest_tag ts)"

definition state_tag :: "'s state \<Rightarrow> jstr" where
  "state_tag s = newest_tag (backtrace s)"

lemma state_tag_start: "state_tag (State sc None None) = []"
  by (simp add: state_tag_def)

lemma state_tag_step:
  "state_tag (State sc (Some prev) (Some tok)) = (if kind tok = Text then pos tok else state_tag prev)"
  by (simp add: state_tag_def)

text \<open>
  What a token records beside its span: a text token the value of the transition
  policy for the tag of the state it starts from and its own tag; a whitespace
  token the empty tag and \<open>1.0\<close>; a skipped token the empty tag and \<open>1e-8\<close>.
\<close>

definition prob_ok :: "transitions \<Rightarrow> jstr \<Rightarrow> token \<Rightarrow> bool" where
  "prob_ok transitionMap prevTag tok \<longleftrightarrow>
     (case kind tok of
        Text \<Rightarrow> transition_prob transitionMap prevTag (pos tok) = Some (transProb tok)
      | Whitespace \<Rightarrow> pos tok = [] \<and> transProb tok = 1
      | Skipped \<Rightarrow> pos tok = [] \<and> transProb tok = 1 / 10 ^ 8)"

text \<open>
  A state at position \<open>j\<close> whose back-pointers lead to the initial state by such
  steps, no state on the way having the name of a member of \<^verbatim>\<open>Object.prototype\<close> as
  its tag.
\<close>

inductive valid_chain :: "jstr \<Rightarrow> trie \<Rightarrow> transitions \<Rightarrow> nat \<Rightarrow> 's state \<Rightarrow> bool"
  for tx trie tm where
  chain_start: "valid_chain tx trie tm 0 (State sc None None)"
| chain_step:
    "valid_chain tx trie tm i prev \<Longrightarrow> step_ok tx trie i j tok \<Longrightarrow>
     prob_ok tm (state_tag prev) tok \<Longrightarrow>
     \<not> proto_member (state_tag (State sc (Some prev) (Some tok))) \<Longrightarrow>
     valid_chain tx trie tm j (State sc (Some prev) (Some tok))"

lemma proto_member_Nil: "\<not> proto_member []"
  by (simp add: proto_member_def lit_def)

lemma chain_plain: "valid_chain tx trie tm j s \<Longrightarrow> \<not> proto_member (state_tag s)"
  by (induction rule: valid_chain.induct) (simp_all add: state_tag_start proto_member_Nil)

definition table_ok :: "jstr \<Rightarrow> trie \<Rightarrow> transitions \<Rightarrow> 's table \<Rightarrow> bool" where
  "table_ok tx trie tm t \<longleftrightarrow>
     length t = length tx + 1 \<and> one_per_tag t \<and>
     (\<forall>j < length t. \<forall>(k, s) \<in> set (t ! j). valid_chain tx trie tm j s \<and> k = state_tag s)"

text \<open>
  What a step at position \<open>idx\<close> may change: rows up to \<open>idx\<close> stay as they are, and
  a populated row stays populated.
\<close>

definition extends :: "nat \<Rightarrow> 's table \<Rightarrow> 's table \<Rightarrow> bool" where
  "extends idx t t' \<longleftrightarrow>
     length t' = length t \<and> (\<forall>j \<le> idx. t' ! j = t ! j) \<and>
     (\<forall>j < length t. t ! j \<noteq> [] \<longrightarrow> t' ! j \<noteq> [])"

lemma extends_refl: "extends idx t t"
  by (simp add: extends_def)

lemma extends_trans: "extends idx t t' \<Longrightarrow> extends idx t' t'' \<Longrightarrow> extends idx t t''"
  by (auto simp: extends_def)

lemma init_table_ok: "table_ok tx trie tm (init_table A tx)"
proof -
  have "one_per_tag (init_table A tx)"
    by (auto simp: init_table_def one_per_tag_def list_all_iff
        dest!: subsetD[OF set_update_subset_insert])
  moreover have "\<forall>(k, s) \<in> set (init_table A tx ! j). valid_chain tx trie tm j s \<and> k = state_tag s"
    if "j < length (init_table A tx)" for j
    using that by (cases j) (auto simp: init_table_def valid_chain.chain_start state_tag_start)
  ultimately show ?thesis
    by (simp add: table_ok_def init_table_def)
qed

lemma row_entry:
  assumes "table_ok tx trie tm t" "j < length t" "map_of (t ! j) k = Some s"
  shows "valid_chain tx trie tm j s \<and> k = state_tag s \<and> \<not> proto_member k"
proof -
  from assms(3) have "(k, s) \<in> set (t ! j)" by (rule map_of_SomeD)
  with assms(1,2) have "valid_chain tx trie tm j s \<and> k = state_tag s"
    by (auto simp: table_ok_def)
  with chain_plain[of tx trie tm j s] show ?thesis by simp
qed

lemma update_ok:
  assumes ok: "table_ok tx trie tm t"
    and prev: "valid_chain tx trie tm idx prevState"
    and step: "step_ok tx trie idx nextIdx tok"
    and prob: "prob_ok tm (state_tag prevState) tok"
    and key: "nextPos = (if kind tok = Text then pos tok else state_tag prevState)"
  shows "\<exists>t'. updateViterbiTable A t nextIdx nextPos prevState tok addScore lastPos prevIdx = Some t' \<and>
      table_ok tx trie tm t' \<and> extends idx t t' \<and>
      (\<not> proto_member nextPos \<longrightarrow> t' ! nextIdx \<noteq> [])"
proof -
  from step have range: "idx < nextIdx" "nextIdx \<le> length tx"
    by (simp_all add: step_ok_def)
  with ok have lt: "nextIdx < length t" by (simp add: table_ok_def)
  from lt show ?thesis
  proof (cases rule: update_cases[where A = A and nextPos = nextPos and prevState = prevState
        and tok = tok and addScore = addScore and lastPos = lastPos and prevIdx = prevIdx])
    case (written sc)
    let ?s = "State sc (Some prevState) (Some tok)"
    let ?t' = "t[nextIdx := row_put (t ! nextIdx) nextPos ?s]"
    have plain: "\<not> proto_member nextPos"
    proof (cases "map_of (t ! nextIdx) nextPos")
      case None
      with written(2) show ?thesis by simp
    next
      case (Some old)
      from row_entry[OF ok lt Some] show ?thesis by blast
    qed
    have tag: "state_tag ?s = nextPos"
      using key by (simp add: state_tag_step)
    have new: "valid_chain tx trie tm nextIdx ?s"
      using prev step prob plain tag by (intro valid_chain.chain_step) simp_all
    have "one_per_tag ?t'"
      using update_one_per_tag[OF written(1)] ok by (simp add: table_ok_def)
    moreover have "\<forall>j < length ?t'. \<forall>(k, s) \<in> set (?t' ! j).
        valid_chain tx trie tm j s \<and> k = state_tag s"
    proof (intro allI impI)
      fix j assume j: "j < length ?t'"
      show "\<forall>(k, s) \<in> set (?t' ! j). valid_chain tx trie tm j s \<and> k = state_tag s"
      proof (cases "j = nextIdx")
        case True
        have old: "\<forall>(k, s) \<in> set (t ! nextIdx). valid_chain tx trie tm nextIdx s \<and> k = state_tag s"
          using ok lt by (simp add: table_ok_def)
        have "valid_chain tx trie tm nextIdx s \<and> k = state_tag s"
          if "(k, s) \<in> set (?t' ! j)" for k s
        proof -
          from that True lt have "(k, s) \<in> insert (nextPos, ?s) (set (t ! nextIdx))"
            using set_row_put[of "t ! nextIdx" nextPos ?s] by auto
          with old new tag show ?thesis by auto
        qed
        with True show ?thesis by auto
      next
        case False
        with ok j show ?thesis by (auto simp: table_ok_def)
      qed
    qed
    ultimately have "table_ok tx trie tm ?t'"
      using ok by (simp add: table_ok_def)
    moreover have "extends idx t ?t'"
      using range lt by (auto simp: extends_def nth_list_update row_put_not_Nil)
    moreover have "?t' ! nextIdx \<noteq> []"
      using lt by (simp add: row_put_not_Nil)
    ultimately show ?thesis using written(1) by simp
  next
    case discarded
    have "t ! nextIdx \<noteq> []" if "\<not> proto_member nextPos"
      using discarded(2) that by auto
    with discarded(1) ok show ?thesis by (simp add: extends_refl)
  qed
qed

section \<open>The forward pass keeps the table valid\<close>

text \<open>
  Every morph that a trie query emits on the text has at least one PoS tag in the
  PosMap.
\<close>

definition tags_cover :: "trie \<Rightarrow> (jstr \<rightharpoonup> jstr list) \<Rightarrow> jstr \<Rightarrow> bool" where
  "tags_cover trie posMap tx \<longleftrightarrow>
     (\<forall>i \<in> {0..<length tx}. \<forall>(m, e) \<in> set (findMorphsFromTrie trie tx i).
        case posMap m of None \<Rightarrow> False | Some tags \<Rightarrow> tags \<noteq> [])"

text \<open>
  Every such morph has at least one PoS tag that is not the name of a member of
  \<^verbatim>\<open>Object.prototype\<close>.
\<close>

definition plain_tagged :: "(jstr \<rightharpoonup> jstr list) \<Rightarrow> jstr \<Rightarrow> bool" where
  "plain_tagged posMap m \<longleftrightarrow>
     (case posMap m of None \<Rightarrow> False | Some tags \<Rightarrow> list_ex (\<lambda>tag. \<not> proto_member tag) tags)"

definition plain_cover :: "trie \<Rightarrow> (jstr \<rightharpoonup> jstr list) \<Rightarrow> jstr \<Rightarrow> bool" where
  "plain_cover trie posMap tx \<longleftrightarrow>
     (\<forall>i \<in> {0..<length tx}. \<forall>(m, e) \<in> set (findMorphsFromTrie trie tx i). plain_tagged posMap m)"

definition populated_after :: "jstr \<Rightarrow> nat \<Rightarrow> 's table \<Rightarrow> bool" where
  "populated_after tx idx t \<longleftrightarrow> (\<exists>j. idx < j \<and> j \<le> length tx \<and> t ! j \<noteq> [])"

lemma extends_populated:
  "extends idx t t' \<Longrightarrow> length t = length tx + 1 \<Longrightarrow> populated_after tx i t \<Longrightarrow>
   populated_after tx i t'"
  by (auto simp: extends_def populated_after_def)

lemma slice_one: "i < length tx \<Longrightarrow> slice tx i (Suc i) = [tx ! i]"
  by (simp add: slice_def take_Suc_conv_app_nth hd_drop_conv_nth take_Suc)

lemma policy_member: "transition_prob tm prevPos posTag = None \<Longrightarrow> proto_member posTag"
  by (auto simp: transition_prob_def split: if_splits option.splits)

lemma propose_tags_ok:
  assumes prev: "valid_chain tx trie tm idx prevState"
    and key: "prevPos = state_tag prevState"
    and m: "(m, e) \<in> set (findMorphsFromTrie trie tx idx)"
    and nws: "\<not> is_ws (tx ! idx)"
  shows "table_ok tx trie tm t \<Longrightarrow>
     \<exists>t'. propose_tags A tm prevState prevPos m e idx tags t = Some t' \<and>
       table_ok tx trie tm t' \<and> extends idx t t' \<and>
       (list_ex (\<lambda>tag. \<not> proto_member tag) tags \<longrightarrow> t' ! e \<noteq> [])"
proof (induction tags arbitrary: t)
  case Nil
  then show ?case by (simp add: extends_refl)
next
  case (Cons posTag rest)
  from findMorphs_member[OF m] Cons.prems have e: "e < length t"
    by (simp add: table_ok_def)
  show ?case
  proof (cases "transition_prob tm prevPos posTag")
    case None
    from Cons.IH[OF Cons.prems] obtain t' where t':
      "propose_tags A tm prevState prevPos m e idx rest t = Some t'"
      "table_ok tx trie tm t'" "extends idx t t'"
      "list_ex (\<lambda>tag. \<not> proto_member tag) rest \<longrightarrow> t' ! e \<noteq> []"
      by blast
    from policy_member[OF None] t'(4)
    have "list_ex (\<lambda>tag. \<not> proto_member tag) (posTag # rest) \<longrightarrow> t' ! e \<noteq> []"
      by simp
    with None e t'(1-3) show ?thesis by simp
  next
    case (Some p)
    let ?tok = "\<lparr>morph = m, pos = posTag, kind = Text, transProb = p\<rparr>"
    let ?add = "num_sub A (num_add A (score prevState) (num_log A p)) (score prevState)"
    from findMorphs_member[OF m] m nws have step: "step_ok tx trie idx e ?tok"
      by (simp add: step_ok_def)
    from Some key have prob: "prob_ok tm (state_tag prevState) ?tok"
      by (simp add: prob_ok_def)
    have k: "posTag = (if kind ?tok = Text then pos ?tok else state_tag prevState)"
      by simp
    from update_ok[OF Cons.prems prev step prob k, of A ?add posTag idx]
    obtain t1 where t1: "updateViterbiTable A t e posTag prevState ?tok ?add posTag idx = Some t1"
      "table_ok tx trie tm t1" "extends idx t t1" "\<not> proto_member posTag \<longrightarrow> t1 ! e \<noteq> []"
      by blast
    from Cons.IH[OF t1(2)] obtain t' where t':
      "propose_tags A tm prevState prevPos m e idx rest t1 = Some t'"
      "table_ok tx trie tm t'" "extends idx t1 t'"
      "list_ex (\<lambda>tag. \<not> proto_member tag) rest \<longrightarrow> t' ! e \<noteq> []"
      by blast
    from t1(3) e have e1: "e < length t1" by (simp add: extends_def)
    have "t' ! e \<noteq> []" if "\<not> proto_member posTag"
      using that t1(4) t'(3) e1 by (simp add: extends_def)
    with t'(4) have "list_ex (\<lambda>tag. \<not> proto_member tag) (posTag # rest) \<longrightarrow> t' ! e \<noteq> []"
      by auto
    moreover have "extends idx t t'"
      using t1(3) t'(3) by (rule extends_trans)
    ultimately show ?thesis using Some t1(1) t'(1,2) by (simp add: Let_def)
  qed
qed

text \<open>The loops either throw on a morph that is read through the prototype, or keep the table valid.\<close>

lemma propose_morphs_ok:
  assumes prev: "valid_chain tx trie tm idx prevState"
    and key: "prevPos = state_tag prevState"
    and nws: "\<not> is_ws (tx ! idx)"
  shows "table_ok tx trie tm t \<Longrightarrow> set fm \<subseteq> set (findMorphsFromTrie trie tx idx) \<Longrightarrow>
     (case propose_morphs A posMap tm prevState prevPos idx fm t of
        None \<Rightarrow> list_ex (\<lambda>(m, e). \<not> plain_tagged posMap m) fm
      | Some t' \<Rightarrow>
          table_ok tx trie tm t' \<and> extends idx t t' \<and>
          (list_ex (\<lambda>(m, e). plain_tagged posMap m) fm \<longrightarrow> populated_after tx idx t'))"
proof (induction fm arbitrary: t)
  case Nil
  then show ?case by (simp add: extends_refl)
next
  case (Cons me rest)
  obtain m e where me: "me = (m, e)" by (cases me)
  from Cons.prems(2) me have mem: "(m, e) \<in> set (findMorphsFromTrie trie tx idx)"
    by simp
  from Cons.prems(2) have sub: "set rest \<subseteq> set (findMorphsFromTrie trie tx idx)"
    by simp
  show ?case
  proof (cases "posMap m = None \<and> proto_member m")
    case True
    then have "\<not> plain_tagged posMap m" by (simp add: plain_tagged_def)
    with True me show ?thesis by simp
  next
    case False
    define tags where "tags = (case posMap m of None \<Rightarrow> [] | Some ts \<Rightarrow> ts)"
    from False have look: "(case posMap m of Some ts \<Rightarrow> Some ts
        | None \<Rightarrow> if proto_member m then None else Some []) = Some tags"
      by (auto simp: tags_def split: option.splits)
    have tagged: "plain_tagged posMap m \<longleftrightarrow> list_ex (\<lambda>tag. \<not> proto_member tag) tags"
      by (auto simp: plain_tagged_def tags_def split: option.splits)
    from propose_tags_ok[OF prev key mem nws Cons.prems(1), of A tags]
    obtain t1 where t1:
      "propose_tags A tm prevState prevPos m e idx tags t = Some t1"
      "table_ok tx trie tm t1" "extends idx t t1"
      "list_ex (\<lambda>tag. \<not> proto_member tag) tags \<longrightarrow> t1 ! e \<noteq> []"
      by blast
    have len: "length t1 = length tx + 1"
      using t1(2) by (simp add: table_ok_def)
    have run: "propose_morphs A posMap tm prevState prevPos idx (me # rest) t =
        propose_morphs A posMap tm prevState prevPos idx rest t1"
      using me look t1(1) by simp
    have first: "populated_after tx idx t1" if "plain_tagged posMap m"
      using that tagged t1(4) findMorphs_member[OF mem] by (auto simp: populated_after_def)
    show ?thesis
    proof (cases "propose_morphs A posMap tm prevState prevPos idx rest t1")
      case None
      with Cons.IH[OF t1(2) sub, of ] have "list_ex (\<lambda>(m, e). \<not> plain_tagged posMap m) rest"
        by simp
      with None run show ?thesis by simp
    next
      case (Some t')
      with Cons.IH[OF t1(2) sub] have t': "table_ok tx trie tm t'" "extends idx t1 t'"
        "list_ex (\<lambda>(m, e). plain_tagged posMap m) rest \<longrightarrow> populated_after tx idx t'"
        by simp_all
      have "populated_after tx idx t'" if "plain_tagged posMap m"
        using first[OF that] t'(2) len by (rule extends_populated[rotated 2])
      with t'(3) me have
        "list_ex (\<lambda>(m, e). plain_tagged posMap m) (me # rest) \<longrightarrow> populated_after tx idx t'"
        by auto
      moreover have "extends idx t t'"
        using t1(3) t'(2) by (rule extends_trans)
      ultimately show ?thesis using Some run t'(1) by simp
    qed
  qed
qed

lemma visit_state_ok:
  assumes ok: "table_ok tx trie tm t"
    and idx: "idx < length tx"
    and key: "prevPos \<in> fst ` set (t ! idx)"
  shows "(case visit_state A tx trie posMap tm findMorphsFromTrie idx prevPos t of
        None \<Rightarrow> \<not> plain_cover trie posMap tx
      | Some t' \<Rightarrow>
          table_ok tx trie tm t' \<and> extends idx t t' \<and>
          (plain_cover trie posMap tx \<longrightarrow> populated_after tx idx t'))"
proof -
  from ok idx have lt: "idx < length t" by (simp add: table_ok_def)
  from key have "map_of (t ! idx) prevPos \<noteq> None"
    by (simp add: map_of_eq_None_iff)
  then obtain prevState where look: "map_of (t ! idx) prevPos = Some prevState"
    by auto
  from row_entry[OF ok lt look] have prev: "valid_chain tx trie tm idx prevState"
    and tag: "prevPos = state_tag prevState" and plain: "\<not> proto_member prevPos"
    by blast+
  have len: "length t = length tx + 1"
    using ok by (simp add: table_ok_def)
  have covered: "list_all (\<lambda>(m, e). plain_tagged posMap m) (findMorphsFromTrie trie tx idx)"
    if "plain_cover trie posMap tx"
    using that idx by (auto simp: plain_cover_def list_all_iff)
  show ?thesis
  proof (cases "is_ws (tx ! idx)")
    case True
    let ?e = "ws_end tx idx"
    let ?tok = "\<lparr>morph = slice tx idx ?e, pos = [], kind = Whitespace, transProb = 1\<rparr>"
    from True idx ws_end_greater[of idx tx] ws_end_bounds[of idx tx]
    have step: "step_ok tx trie idx ?e ?tok"
      by (simp add: step_ok_def)
    have prob: "prob_ok tm (state_tag prevState) ?tok"
      by (simp add: prob_ok_def)
    have k: "prevPos = (if kind ?tok = Text then pos ?tok else state_tag prevState)"
      using tag by simp
    from update_ok[OF ok prev step prob k, of A "num_zero A" prevPos idx] plain
    obtain t' where t': "updateViterbiTable A t ?e prevPos prevState ?tok (num_zero A) prevPos idx = Some t'"
      "table_ok tx trie tm t'" "extends idx t t'" "t' ! ?e \<noteq> []"
      by blast
    from step t'(4) have "populated_after tx idx t'"
      by (auto simp: populated_after_def step_ok_def)
    with t' True look lt show ?thesis
      by (simp add: visit_state_def row_at_def Let_def)
  next
    case False
    let ?fm = "findMorphsFromTrie trie tx idx"
    have run: "visit_state A tx trie posMap tm findMorphsFromTrie idx prevPos t =
        (case propose_morphs A posMap tm prevState prevPos idx ?fm t of
           None \<Rightarrow> None
         | Some t1 \<Rightarrow>
             if ?fm = [] then
               updateViterbiTable A t1 (idx + 1) prevPos prevState
                 \<lparr>morph = [tx ! idx], pos = [], kind = Skipped, transProb = 1 / 10 ^ 8\<rparr>
                 (num_log A (1 / 10 ^ 8)) prevPos idx
             else Some t1)"
      using False look lt
      by (simp add: visit_state_def row_at_def Let_def split: option.splits)
    note pm = propose_morphs_ok[OF prev tag False ok subset_refl, where A = A and posMap = posMap]
    show ?thesis
    proof (cases "propose_morphs A posMap tm prevState prevPos idx ?fm t")
      case None
      with pm have bad: "list_ex (\<lambda>(m, e). \<not> plain_tagged posMap m) ?fm" by simp
      have "\<not> plain_cover trie posMap tx"
      proof
        assume "plain_cover trie posMap tx"
        from covered[OF this] bad show False
          by (auto simp: list_all_iff list_ex_iff)
      qed
      with None run show ?thesis by simp
    next
      case (Some t1)
      with pm have t1: "table_ok tx trie tm t1" "extends idx t t1"
        "list_ex (\<lambda>(m, e). plain_tagged posMap m) ?fm \<longrightarrow> populated_after tx idx t1"
        by simp_all
      show ?thesis
      proof (cases "?fm = []")
        case True
        let ?tok = "\<lparr>morph = [tx ! idx], pos = [], kind = Skipped, transProb = 1 / 10 ^ 8\<rparr>"
        from False idx have step: "step_ok tx trie idx (Suc idx) ?tok"
          by (simp add: step_ok_def slice_one)
        have prob: "prob_ok tm (state_tag prevState) ?tok"
          by (simp add: prob_ok_def)
        have k: "prevPos = (if kind ?tok = Text then pos ?tok else state_tag prevState)"
          using tag by simp
        from update_ok[OF t1(1) prev step prob k, of A "num_log A (1 / 10 ^ 8)" prevPos idx] plain
        obtain t' where t':
          "updateViterbiTable A t1 (Suc idx) prevPos prevState ?tok (num_log A (1 / 10 ^ 8))
             prevPos idx = Some t'"
          "table_ok tx trie tm t'" "extends idx t1 t'" "t' ! Suc idx \<noteq> []"
          by blast
        from idx t'(4) have "populated_after tx idx t'"
          by (auto simp: populated_after_def)
        moreover have "extends idx t t'"
          using t1(2) t'(3) by (rule extends_trans)
        ultimately show ?thesis
          using Some run True t'(1,2) by simp
      next
        case ne: False
        have "populated_after tx idx t1" if "plain_cover trie posMap tx"
        proof -
          from covered[OF that] ne have "list_ex (\<lambda>(m, e). plain_tagged posMap m) ?fm"
            by (cases ?fm) (auto simp: list_all_iff)
          with t1(3) show ?thesis by simp
        qed
        with Some run ne t1(1,2) show ?thesis by simp
      qed
    qed
  qed
qed

lemma visit_keys_ok:
  assumes idx: "idx < length tx"
  shows "table_ok tx trie tm t \<Longrightarrow> set ks \<subseteq> fst ` set (t ! idx) \<Longrightarrow>
     (case visit_keys A tx trie posMap tm findMorphsFromTrie idx ks t of
        None \<Rightarrow> \<not> plain_cover trie posMap tx
      | Some t' \<Rightarrow>
          table_ok tx trie tm t' \<and> extends idx t t' \<and>
          (plain_cover trie posMap tx \<and> ks \<noteq> [] \<longrightarrow> populated_after tx idx t'))"
proof (induction ks arbitrary: t)
  case Nil
  then show ?case by (simp add: extends_refl)
next
  case (Cons k ks)
  from Cons.prems(2) have key: "k \<in> fst ` set (t ! idx)" by simp
  note vs = visit_state_ok[OF Cons.prems(1) idx key, where A = A and posMap = posMap]
  show ?case
  proof (cases "visit_state A tx trie posMap tm findMorphsFromTrie idx k t")
    case None
    with vs show ?thesis by simp
  next
    case (Some t1)
    with vs have t1: "table_ok tx trie tm t1" "extends idx t t1"
      "plain_cover trie posMap tx \<longrightarrow> populated_after tx idx t1"
      by simp_all
    from t1(2) have "t1 ! idx = t ! idx" by (simp add: extends_def)
    with Cons.prems(2) have sub: "set ks \<subseteq> fst ` set (t1 ! idx)" by simp
    have len: "length t1 = length tx + 1"
      using t1(1) by (simp add: table_ok_def)
    show ?thesis
    proof (cases "visit_keys A tx trie posMap tm findMorphsFromTrie idx ks t1")
      case None
      with Cons.IH[OF t1(1) sub] Some show ?thesis by simp
    next
      case t': (Some t')
      with Cons.IH[OF t1(1) sub] have t'': "table_ok tx trie tm t'" "extends idx t1 t'"
        by simp_all
      have "populated_after tx idx t'" if "plain_cover trie posMap tx"
        using t1(3) that extends_populated[OF t''(2) len] by blast
      moreover have "extends idx t t'"
        using t1(2) t''(2) by (rule extends_trans)
      ultimately show ?thesis using Some t' t''(1) by simp
    qed
  qed
qed

lemma forward_loop_ok:
  "table_ok tx trie tm t \<Longrightarrow>
   (case forward_loop A tx trie posMap tm findMorphsFromTrie idx t of
      None \<Rightarrow> \<not> plain_cover trie posMap tx
    | Some t' \<Rightarrow>
        table_ok tx trie tm t' \<and>
        (plain_cover trie posMap tx \<and> (\<exists>j. idx \<le> j \<and> j \<le> length tx \<and> t ! j \<noteq> []) \<longrightarrow>
           t' ! length tx \<noteq> []))"
proof (induction "length tx - idx" arbitrary: idx t)
  case 0
  then have stop: "\<not> idx < length tx" by simp
  have "t ! length tx \<noteq> []" if "idx \<le> j" "j \<le> length tx" "t ! j \<noteq> []" for j
  proof -
    from stop that(1,2) have "j = length tx" by simp
    with that(3) show ?thesis by simp
  qed
  with stop "0.prems" show ?case
    by (subst forward_loop.simps) auto
next
  case (Suc n)
  then have idx: "idx < length tx" by simp
  from Suc.prems have len: "length t = length tx + 1" by (simp add: table_ok_def)
  with idx have row: "row_at t idx = t ! idx" by (simp add: row_at_def)
  let ?ks = "forin_keys (t ! idx)"
  have sub: "set ?ks \<subseteq> fst ` set (t ! idx)" by (simp add: forin_keys_set)
  note vk = visit_keys_ok[OF idx Suc.prems sub, where A = A and posMap = posMap]
  have run: "forward_loop A tx trie posMap tm findMorphsFromTrie idx t =
      (case visit_keys A tx trie posMap tm findMorphsFromTrie idx ?ks t of
         None \<Rightarrow> None
       | Some t1 \<Rightarrow> forward_loop A tx trie posMap tm findMorphsFromTrie (Suc idx) t1)"
    using idx row by (subst forward_loop.simps) simp
  show ?case
  proof (cases "visit_keys A tx trie posMap tm findMorphsFromTrie idx ?ks t")
    case None
    with vk run show ?thesis by simp
  next
    case (Some t1)
    with vk have t1: "table_ok tx trie tm t1" "extends idx t t1"
      "plain_cover trie posMap tx \<and> ?ks \<noteq> [] \<longrightarrow> populated_after tx idx t1"
      by simp_all
    from Suc.hyps(2) have n: "n = length tx - Suc idx" by simp
    note fl = Suc.hyps(1)[OF n t1(1)]
    show ?thesis
    proof (cases "forward_loop A tx trie posMap tm findMorphsFromTrie (Suc idx) t1")
      case None
      with fl Some run show ?thesis by simp
    next
      case t': (Some t')
      with fl have t'': "table_ok tx trie tm t'"
        "plain_cover trie posMap tx \<and> (\<exists>j. Suc idx \<le> j \<and> j \<le> length tx \<and> t1 ! j \<noteq> []) \<longrightarrow>
           t' ! length tx \<noteq> []"
        by simp_all
      have "t' ! length tx \<noteq> []"
        if cover: "plain_cover trie posMap tx" and j: "idx \<le> j" "j \<le> length tx" "t ! j \<noteq> []"
        for j
      proof -
        have "populated_after tx idx t1"
        proof (cases "j = idx")
          case True
          with j(3) have "?ks \<noteq> []"
            using forin_keys_set[of "t ! idx"] by (cases "t ! idx") auto
          with cover t1(3) show ?thesis by simp
        next
          case False
          with j have "idx < j \<and> j \<le> length tx \<and> t ! j \<noteq> []" by simp
          then have "populated_after tx idx t" unfolding populated_after_def by (rule exI)
          with t1(2) len show ?thesis by (rule extends_populated)
        qed
        then obtain j' where "idx < j'" "j' \<le> length tx" "t1 ! j' \<noteq> []"
          unfolding populated_after_def by (elim exE conjE)
        then have "Suc idx \<le> j' \<and> j' \<le> length tx \<and> t1 ! j' \<noteq> []" by simp
        then have "\<exists>j. Suc idx \<le> j \<and> j \<le> length tx \<and> t1 ! j \<noteq> []"
          by (rule exI)
        with cover t''(2) show ?thesis by simp
      qed
      with Some t' run t''(1) show ?thesis by auto
    qed
  qed
qed

lemma forward_pass_ok:
  "(case forward_pass A tx trie posMap tm findMorphsFromTrie of
      None \<Rightarrow> \<not> plain_cover trie posMap tx
    | Some t \<Rightarrow>
        table_ok tx trie tm t \<and> (plain_cover trie posMap tx \<longrightarrow> t ! length tx \<noteq> []))"
proof -
  have "init_table A tx ! 0 \<noteq> []" by (simp add: init_table_def)
  then have "\<exists>j. 0 \<le> j \<and> j \<le> length tx \<and> init_table A tx ! j \<noteq> []" by blast
  with forward_loop_ok[OF init_table_ok[of tx trie tm A], where idx = 0 and A = A
      and posMap = posMap]
  show ?thesis
    unfolding forward_pass_def by (auto split: option.splits)
qed

lemma forward_pass_table:
  "forward_pass A tx trie posMap tm findMorphsFromTrie = Some t \<Longrightarrow> table_ok tx trie tm t"
  using forward_pass_ok[where A = A and tx = tx and trie = trie and posMap = posMap and tm = tm]
  by simp

section \<open>The merge policy and the state bound\<close>

text \<open>Example data: the table for a two-unit text after one proposal at position 1.\<close>

definition demo_token :: token where
  "demo_token = \<lparr>morph = lit ''a'', pos = lit ''n'', kind = Text, transProb = 1\<rparr>"

definition demo_table :: "real table" where
  "demo_table =
     [[([], State 0 None None)],
      [(lit ''n'', State 0 (Some (State 0 None None)) (Some demo_token))],
      []]"

text \<open>
  C7. A proposal for the cell \<open>(nextIdx, nextPos)\<close> is written only if the cell is
  empty or the new cumulative score is strictly greater than the stored one:
  exactly when the cell holds a state of strictly lower score, or is empty and its
  tag is not the name of a member of \<^verbatim>\<open>Object.prototype\<close>. Then the cell holds the
  new state and every other cell is unchanged. Otherwise (in particular on a tie)
  the table is unchanged. Every row of the initial table has at most one entry per
  tag, every update keeps it so, and so has the table when the forward pass ends.
\<close>

theorem update_policy:
  "(overwrites A t nextIdx nextPos (num_add A (score prevState) addScore) \<longleftrightarrow>
      map_of (t ! nextIdx) nextPos = None \<and> \<not> proto_member nextPos \<or>
      (\<exists>old. map_of (t ! nextIdx) nextPos = Some old \<and>
         num_lt A (score old) (num_add A (score prevState) addScore))) \<and>
   (nextIdx < length t \<and>
    overwrites A t nextIdx nextPos (num_add A (score prevState) addScore) \<longrightarrow>
      (\<exists>t'. updateViterbiTable A t nextIdx nextPos prevState tok addScore lastPos prevIdx = Some t' \<and>
         length t' = length t \<and>
         map_of (t' ! nextIdx) nextPos =
           Some (State (num_add A (score prevState) addScore) (Some prevState) (Some tok)) \<and>
         (\<forall>j k. j < length t \<and> (j, k) \<noteq> (nextIdx, nextPos) \<longrightarrow>
            map_of (t' ! j) k = map_of (t ! j) k))) \<and>
   (nextIdx < length t \<and>
    \<not> overwrites A t nextIdx nextPos (num_add A (score prevState) addScore) \<longrightarrow>
      updateViterbiTable A t nextIdx nextPos prevState tok addScore lastPos prevIdx = Some t) \<and>
   (nextIdx < length t \<and> (\<forall>x. \<not> num_lt A x x) \<and>
    (\<exists>old. map_of (t ! nextIdx) nextPos = Some old \<and>
       score old = num_add A (score prevState) addScore) \<longrightarrow>
      updateViterbiTable A t nextIdx nextPos prevState tok addScore lastPos prevIdx = Some t) \<and>
   (one_per_tag t \<and>
    updateViterbiTable A t nextIdx nextPos prevState tok addScore lastPos prevIdx = Some t2 \<longrightarrow>
      one_per_tag t2) \<and>
   one_per_tag (init_table A tx) \<and>
   (forward_pass A tx trie posMap transitionMap findMorphsFromTrie = Some t3 \<longrightarrow>
      one_per_tag t3)"
proof (intro conjI impI)
  show "overwrites A t nextIdx nextPos (num_add A (score prevState) addScore) \<longleftrightarrow>
      map_of (t ! nextIdx) nextPos = None \<and> \<not> proto_member nextPos \<or>
      (\<exists>old. map_of (t ! nextIdx) nextPos = Some old \<and>
         num_lt A (score old) (num_add A (score prevState) addScore))"
    by (auto simp: overwrites_def split: option.splits)
next
  let ?new = "State (num_add A (score prevState) addScore) (Some prevState) (Some tok)"
  let ?t' = "t[nextIdx := row_put (t ! nextIdx) nextPos ?new]"
  assume a: "nextIdx < length t \<and>
    overwrites A t nextIdx nextPos (num_add A (score prevState) addScore)"
  then have "updateViterbiTable A t nextIdx nextPos prevState tok addScore lastPos prevIdx = Some ?t'"
    by (simp add: update_written)
  moreover have "map_of (?t' ! nextIdx) nextPos = Some ?new"
    using a by (simp add: map_of_row_put)
  moreover have "\<forall>j k. j < length t \<and> (j, k) \<noteq> (nextIdx, nextPos) \<longrightarrow>
      map_of (?t' ! j) k = map_of (t ! j) k"
    using a by (auto simp: nth_list_update map_of_row_put)
  ultimately show "\<exists>t'. updateViterbiTable A t nextIdx nextPos prevState tok addScore lastPos
        prevIdx = Some t' \<and>
      length t' = length t \<and> map_of (t' ! nextIdx) nextPos = Some ?new \<and>
      (\<forall>j k. j < length t \<and> (j, k) \<noteq> (nextIdx, nextPos) \<longrightarrow>
         map_of (t' ! j) k = map_of (t ! j) k)"
    by simp
next
  assume "nextIdx < length t \<and>
    \<not> overwrites A t nextIdx nextPos (num_add A (score prevState) addScore)"
  then show "updateViterbiTable A t nextIdx nextPos prevState tok addScore lastPos prevIdx = Some t"
    by (simp add: update_discarded)
next
  assume "nextIdx < length t \<and> (\<forall>x. \<not> num_lt A x x) \<and>
    (\<exists>old. map_of (t ! nextIdx) nextPos = Some old \<and>
       score old = num_add A (score prevState) addScore)"
  then have "nextIdx < length t"
    and "\<not> overwrites A t nextIdx nextPos (num_add A (score prevState) addScore)"
    by (auto simp: overwrites_def split: option.splits)
  then show "updateViterbiTable A t nextIdx nextPos prevState tok addScore lastPos prevIdx = Some t"
    by (rule update_discarded)
next
  assume "one_per_tag t \<and>
    updateViterbiTable A t nextIdx nextPos prevState tok addScore lastPos prevIdx = Some t2"
  then have b: "one_per_tag t"
    and c: "updateViterbiTable A t nextIdx nextPos prevState tok addScore lastPos prevIdx = Some t2"
    by simp_all
  from update_one_per_tag[OF c b] show "one_per_tag t2" .
next
  show "one_per_tag (init_table A tx)"
    using init_table_ok[of tx trie transitionMap A] by (simp add: table_ok_def)
next
  assume "forward_pass A tx trie posMap transitionMap findMorphsFromTrie = Some t3"
  from forward_pass_table[OF this] show "one_per_tag t3"
    by (simp add: table_ok_def)
qed

theorem update_policy_witness:
  "(1::nat) < length (init_table real_arith (lit ''ab'')) \<and>
   overwrites real_arith (init_table real_arith (lit ''ab'')) 1 (lit ''n'')
     (num_add real_arith (score (State 0 None None)) 0) \<and>
   updateViterbiTable real_arith (init_table real_arith (lit ''ab'')) 1 (lit ''n'')
     (State 0 None None) demo_token 0 (lit ''n'') 0 = Some demo_table \<and>
   one_per_tag (init_table real_arith (lit ''ab'')) \<and> one_per_tag demo_table \<and>
   (1::nat) < length demo_table \<and>
   map_of (demo_table ! 1) (lit ''n'') = Some (State 0 (Some (State 0 None None)) (Some demo_token)) \<and>
   (\<forall>x. \<not> num_lt real_arith x x) \<and>
   score (State (0::real) (Some (State 0 None None)) (Some demo_token)) =
     num_add real_arith (score (State 0 None None)) 0 \<and>
   \<not> overwrites real_arith demo_table 1 (lit ''n'')
     (num_add real_arith (score (State 0 None None)) 0) \<and>
   updateViterbiTable real_arith demo_table 1 (lit ''n'')
     (State 0 None None) demo_token 0 (lit ''n'') 0 = Some demo_table"
  using update_policy [where nextIdx = 1 and t = "init_table real_arith (lit ''ab'')"
      and A = real_arith and nextPos = "lit ''n''" and prevState = "State 0 None None"
      and addScore = 0 and tok = demo_token and lastPos = "lit ''n''" and prevIdx = 0
      and ?t2.0 = demo_table]
    update_policy [where nextIdx = 1 and t = demo_table
      and A = real_arith and nextPos = "lit ''n''" and prevState = "State 0 None None"
      and addScore = 0 and tok = demo_token and lastPos = "lit ''n''" and prevIdx = 0
      and ?t2.0 = demo_table]
  by (simp add: init_table_def demo_table_def demo_token_def real_arith_def lit_def
      overwrites_def updateViterbiTable_def one_per_tag_def proto_member_def)

section \<open>Forward progress\<close>

text \<open>
  Example data: a dictionary whose only morph has the PoS tag \<open>constructor\<close>, the name
  of a member of \<^verbatim>\<open>Object.prototype\<close>.
\<close>

definition ctor_dict :: "(jstr \<times> jstr) list" where
  "ctor_dict = [(lit ''a'', lit ''constructor'')]"

definition ctor_posMap :: "jstr \<rightharpoonup> jstr list" where
  "ctor_posMap = [lit ''a'' \<mapsto> [lit ''constructor'']]"

lemma ctor_posMap: "buildPosMap ctor_dict = Some ctor_posMap"
  by (simp add: buildPosMap_def ctor_dict_def ctor_posMap_def proto_member_def lit_def)

lemma ctor_trie: "buildMorphTrie ctor_dict = [(97, TrieNode True [])]"
  by (simp add: ctor_dict_def buildMorphTrie_def lit_def Let_def)

lemma ctor_cover: "tags_cover (buildMorphTrie ctor_dict) ctor_posMap (lit ''a'')"
  unfolding ctor_trie tags_cover_def
  by (simp add: lit_def ctor_posMap_def findMorphsFromTrie_def findMorphs_loop.simps slice_def)

text \<open>
  C6 fails on the code. With this dictionary every morph that the trie emits on
  the text \<open>a\<close> has a PoS tag, yet the proposal for the cell \<open>(1, constructor)\<close> is
  never written: \<^verbatim>\<open>viterbiTable[1]["constructor"]\<close> reads the inherited member. The
  match has set \<open>matched\<close>, so nothing is skipped; the row of position \<open>N = 1\<close> stays
  empty and the empty Word sequence is returned.
\<close>

theorem inherited_tag_dead_end:
  "buildPosMap ctor_dict = Some ctor_posMap \<and>
   findMorphsFromTrie (buildMorphTrie ctor_dict) (lit ''a'') 0 = [(lit ''a'', 1)] \<and>
   ctor_posMap (lit ''a'') = Some [lit ''constructor''] \<and>
   forward_pass real_arith (lit ''a'') (buildMorphTrie ctor_dict) ctor_posMap Map.empty
     findMorphsFromTrie = Some [[([], State 0 None None)], []] \<and>
   row_at [[([], State (0::real) None None)], []] (length (lit ''a'')) = [] \<and>
   viterbiSegment real_arith (lit ''a'') (buildMorphTrie ctor_dict) ctor_posMap Map.empty
     findMorphsFromTrie Map.empty = Some []"
  unfolding ctor_trie
  by (simp add: eval_defs ctor_dict_def ctor_posMap_def real_arith_def)

text \<open>
  What does hold: when every morph that a trie query emits on the text has a PoS
  tag that is not the name of a member of \<^verbatim>\<open>Object.prototype\<close>, the forward pass ends
  without an error and with at least one state in the row of position
  \<open>N = length text\<close>.
\<close>

lemma forward_progress_plain:
  "plain_cover trie posMap tx \<Longrightarrow>
   \<exists>t. forward_pass A tx trie posMap transitionMap findMorphsFromTrie = Some t \<and>
     length t = length tx + 1 \<and> row_at t (length tx) \<noteq> []"
  using forward_pass_ok[where A = A and tx = tx and trie = trie and posMap = posMap
      and tm = transitionMap]
  by (auto simp: table_ok_def row_at_def split: option.splits)

section \<open>A dead end returns the empty sequence\<close>

text \<open>Example data: a trie that holds the morph a, with a PosMap that has no entry for it.\<close>

definition orphan_trie :: trie where
  "orphan_trie = buildMorphTrie [(lit ''a'', lit ''n'')]"

lemma orphan_pass:
  "forward_pass real_arith (lit ''a'') orphan_trie Map.empty Map.empty findMorphsFromTrie =
     Some [[([], State 0 None None)], []]"
  by (simp add: eval_defs orphan_trie_def real_arith_def)

text \<open>
  C1, as stated, fails: the source has no check of the last row and raises no
  error. With the morph a in the trie and no tag for it, the forward pass on the
  text a ends with an empty row at position 1, and \<open>viterbiSegment\<close> returns the empty
  Word sequence.
\<close>

theorem dead_end_counterexample:
  "forward_pass real_arith (lit ''a'') orphan_trie Map.empty Map.empty findMorphsFromTrie =
     Some [[([], State 0 None None)], []] \<and>
   row_at [[([], State (0::real) None None)], []] (length (lit ''a'')) = [] \<and>
   viterbiSegment real_arith (lit ''a'') orphan_trie Map.empty Map.empty findMorphsFromTrie
     Map.empty = Some []"
  by (simp add: eval_defs orphan_trie_def real_arith_def)

text \<open>
  C1 (amended). For every input on which the row of position \<open>N\<close> is empty when the
  forward pass ends, \<open>viterbiSegment\<close> returns the empty Word sequence.
\<close>

theorem dead_end_returns_empty:
  "forward_pass A tx trie posMap transitionMap findMorphs = Some t \<Longrightarrow>
   row_at t (length tx) = [] \<Longrightarrow>
   viterbiSegment A tx trie posMap transitionMap findMorphs recombinationMap = Some []"
  by (simp add: viterbiSegment_def forin_keys_def recombineTokens_def recombine_loop.simps)

theorem dead_end_returns_empty_witness:
  "forward_pass real_arith (lit ''a'') orphan_trie Map.empty Map.empty findMorphsFromTrie =
     Some [[([], State 0 None None)], []] \<and>
   row_at [[([], State (0::real) None None)], []] (length (lit ''a'')) = [] \<and>
   viterbiSegment real_arith (lit ''a'') orphan_trie Map.empty Map.empty findMorphsFromTrie
     rain_rules = Some []"
  using dead_end_returns_empty [OF orphan_pass, of rain_rules] orphan_pass
  by (simp add: row_at_def lit_def)

section \<open>Example 1\<close>

text \<open>
  C4. With the dictionary of the two morphs (noun and particle), the transition
  noun to particle of probability 0.5 and no recombination rule, the text of the
  three units is segmented into two Words of one text Token each: the noun, then
  the particle.
\<close>

theorem example_today:
  "Option.bind (buildPosMap today_dict)
     (\<lambda>posMap. viterbiSegment A today_text (buildMorphTrie today_dict) posMap
        example_transitions findMorphsFromTrie Map.empty) =
   Some [\<lparr>tokens = [\<lparr>morph = [20170, 26085], pos = lit ''noun'', kind = Text, transProb = 1\<rparr>]\<rparr>,
         \<lparr>tokens = [\<lparr>morph = [12399], pos = lit ''particle'', kind = Text,
            transProb = 1 / 2\<rparr>]\<rparr>]"
  by (simp add: eval_defs today_dict_def today_text_def example_transitions_def)

section \<open>The backtrace is a valid path\<close>

text \<open>
  A token sequence that leads from position \<open>i\<close> to position \<open>j\<close> by valid steps, each
  token starting where the previous one ends.
\<close>

fun spans :: "jstr \<Rightarrow> trie \<Rightarrow> nat \<Rightarrow> token list \<Rightarrow> nat \<Rightarrow> bool" where
  "spans tx trie i [] j \<longleftrightarrow> i = j"
| "spans tx trie i (t # ts) j \<longleftrightarrow>
     step_ok tx trie i (i + length (morph t)) t \<and> spans tx trie (i + length (morph t)) ts j"

lemma step_ok_length: "step_ok tx trie i j t \<Longrightarrow> i + length (morph t) = j"
  by (auto simp: step_ok_def slice_def)

lemma spans_snoc:
  "spans tx trie i ts k \<Longrightarrow> step_ok tx trie k j t \<Longrightarrow> spans tx trie i (ts @ [t]) j"
  by (induction ts arbitrary: i) (auto simp: step_ok_length)

lemma chain_spans: "valid_chain tx trie tm j s \<Longrightarrow> spans tx trie 0 (rev (backtrace s)) j"
proof (induction rule: valid_chain.induct)
  case (chain_start sc)
  show ?case by simp
next
  case (chain_step i prev j tok sc)
  then show ?case by (simp add: spans_snoc)
qed

lemma slice_append: "i \<le> k \<Longrightarrow> k \<le> j \<Longrightarrow> slice tx i k @ slice tx k j = slice tx i j"
proof -
  assume a: "i \<le> k" "k \<le> j"
  then have "j - i = (k - i) + (j - k)" by simp
  moreover from a have "drop k tx = drop (k - i) (drop i tx)" by simp
  ultimately show ?thesis
    unfolding slice_def by (simp only: take_add)
qed

lemma spans_concat:
  "spans tx trie i ts j \<Longrightarrow> i \<le> j \<and> concat (map morph ts) = slice tx i j"
proof (induction ts arbitrary: i)
  case Nil
  then show ?case by (simp add: slice_def)
next
  case (Cons t ts)
  let ?k = "i + length (morph t)"
  from Cons.prems have step: "step_ok tx trie i ?k t" and rest: "spans tx trie ?k ts j"
    by simp_all
  from Cons.IH[OF rest] have k: "?k \<le> j" and eq: "concat (map morph ts) = slice tx ?k j"
    by simp_all
  from step have "morph t = slice tx i ?k" by (simp add: step_ok_def)
  with eq have "concat (map morph (t # ts)) = slice tx i ?k @ slice tx ?k j" by simp
  also have "\<dots> = slice tx i j" using k by (intro slice_append) simp_all
  finally show ?case using k by simp
qed

lemma select_best_result:
  "select_best A r best ks = Some s \<Longrightarrow> best = Some s \<or> s \<in> snd ` set r"
proof (induction ks arbitrary: best)
  case Nil
  then show ?case by simp
next
  case (Cons k ks)
  show ?case
  proof (cases "map_of r k")
    case None
    with Cons show ?thesis by simp
  next
    case (Some cand)
    then have mem: "cand \<in> snd ` set r"
      by (metis map_of_SomeD image_eqI snd_conv)
    let ?b = "case best of None \<Rightarrow> Some cand
      | Some b \<Rightarrow> if num_lt A (score b) (score cand) then Some cand else Some b"
    from Cons.prems Some have "select_best A r ?b ks = Some s" by simp
    from Cons.IH[OF this] have "?b = Some s \<or> s \<in> snd ` set r" .
    with mem show ?thesis by (auto split: option.splits if_splits)
  qed
qed

lemma select_best_keeps: "best \<noteq> None \<Longrightarrow> select_best A r best ks \<noteq> None"
proof (induction ks arbitrary: best)
  case Nil
  then show ?case by simp
next
  case (Cons k ks)
  show ?case
  proof (cases "map_of r k")
    case None
    with Cons show ?thesis by simp
  next
    case (Some cand)
    have "(case best of None \<Rightarrow> Some cand
      | Some b \<Rightarrow> if num_lt A (score b) (score cand) then Some cand else Some b) \<noteq> None"
      by (simp split: option.splits)
    from Cons.IH[OF this] Some show ?thesis by simp
  qed
qed

lemma select_best_nonempty: "r \<noteq> [] \<Longrightarrow> select_best A r None (forin_keys r) \<noteq> None"
proof -
  assume "r \<noteq> []"
  then have "fst ` set r \<noteq> {}" by simp
  then have "forin_keys r \<noteq> []"
    using forin_keys_set[of r] by auto
  then obtain k ks where ks: "forin_keys r = k # ks" by (cases "forin_keys r") auto
  then have "k \<in> set (forin_keys r)" by simp
  then have "k \<in> fst ` set r" by (simp only: forin_keys_set)
  then have "map_of r k \<noteq> None" by (simp add: map_of_eq_None_iff)
  then obtain cand where "map_of r k = Some cand" by auto
  with ks select_best_keeps[of "Some cand" A r ks] show ?thesis by simp
qed

lemma recombineTokens_Nil: "recombineTokens [] rm = Some []"
  by (simp add: recombineTokens_def recombine_loop.simps)

text \<open>
  The tokens that \<open>viterbiSegment\<close> hands to the Recombiner are the path of a valid
  state; unless the result is the empty sequence for a non-empty text (a dead end),
  that state lies at position \<open>N = length text\<close>.
\<close>

lemma segment_chain:
  fixes A :: "'s arith"
  assumes run: "viterbiSegment A tx trie posMap tm findMorphsFromTrie rm = Some ws"
  shows "\<exists>j (s :: 's state). valid_chain tx trie tm j s \<and> concat (map tokens ws) = rev (backtrace s) \<and>
     (ws \<noteq> [] \<or> tx = [] \<longrightarrow> j = length tx)"
proof -
  from run obtain t where t: "forward_pass A tx trie posMap tm findMorphsFromTrie = Some t"
    by (auto simp: viterbiSegment_def split: option.splits)
  from forward_pass_table[OF t] have ok: "table_ok tx trie tm t" .
  then have row: "row_at t (length tx) = t ! length tx" and lt: "length tx < length t"
    by (simp_all add: table_ok_def row_at_def)
  let ?best = "select_best A (t ! length tx) None (forin_keys (t ! length tx))"
  let ?toks = "rev (case ?best of None \<Rightarrow> [] | Some s \<Rightarrow> backtrace s)"
  have ws: "recombineTokens ?toks rm = Some ws"
    using run t row by (simp add: viterbiSegment_def Let_def)
  show ?thesis
  proof (cases ?best)
    case None
    then have "ws = []" using ws by (simp add: recombineTokens_Nil)
    moreover have "valid_chain tx trie tm 0 (State (num_zero A) None None)"
      by (rule valid_chain.chain_start)
    ultimately have h: "valid_chain tx trie tm 0 (State (num_zero A) None None) \<and>
        concat (map tokens ws) = rev (backtrace (State (num_zero A) None None)) \<and>
        (ws \<noteq> [] \<or> tx = [] \<longrightarrow> 0 = length tx)"
      by simp
    show ?thesis
      by (rule exI[where x = 0], rule exI[where x = "State (num_zero A) None None"], rule h)
  next
    case (Some s)
    from select_best_result[OF Some] have "s \<in> snd ` set (t ! length tx)" by simp
    then obtain k where "(k, s) \<in> set (t ! length tx)" by auto
    with ok lt have "valid_chain tx trie tm (length tx) s"
      by (auto simp: table_ok_def)
    moreover have "concat (map tokens ws) = rev (backtrace s)"
      using recombineTokens_concat[OF ws] Some by simp
    ultimately have h: "valid_chain tx trie tm (length tx) s \<and>
        concat (map tokens ws) = rev (backtrace s) \<and>
        (ws \<noteq> [] \<or> tx = [] \<longrightarrow> length tx = length tx)"
      by simp
    show ?thesis
      by (rule exI[where x = "length tx"], rule exI[where x = s], rule h)
  qed
qed

lemma segment_path:
  fixes A :: "'a arith"
  assumes "viterbiSegment A tx trie posMap tm findMorphsFromTrie rm = Some ws"
    and "ws \<noteq> [] \<or> tx = []"
  shows "spans tx trie 0 (concat (map tokens ws)) (length tx)"
proof -
  from segment_chain[OF assms(1)] obtain j and s :: "'a state" where
    c: "valid_chain tx trie tm j s" and e: "concat (map tokens ws) = rev (backtrace s)"
    and j: "ws \<noteq> [] \<or> tx = [] \<longrightarrow> j = length tx"
    by (elim exE conjE)
  from j assms(2) have "j = length tx" by simp
  with chain_spans[OF c] e show ?thesis by simp
qed

section \<open>Coverage\<close>

text \<open>
  C3, as stated, fails: on a dead end \<open>viterbiSegment\<close> returns the empty Word sequence
  for a non-empty text. Here the first unit is skipped, the second is matched by a
  morph that has no tag, and nothing of the text is returned.
\<close>

theorem coverage_counterexample:
  "viterbiSegment real_arith (lit ''xa'') orphan_trie Map.empty Map.empty findMorphsFromTrie
     Map.empty = Some [] \<and>
   concat (map morph (concat (map tokens []))) \<noteq> lit ''xa''"
  by (simp add: eval_defs orphan_trie_def real_arith_def)

text \<open>
  C3 (amended). Whenever \<open>viterbiSegment\<close> returns a Word sequence that is not empty,
  or returns for the empty text, the text spans of all Tokens of all Words,
  concatenated in output order, are exactly the input.
\<close>

theorem coverage:
  "viterbiSegment A tx trie posMap transitionMap findMorphsFromTrie recombinationMap = Some ws \<Longrightarrow>
   ws \<noteq> [] \<or> tx = [] \<Longrightarrow>
   concat (map morph (concat (map tokens ws))) = tx"
proof -
  assume "viterbiSegment A tx trie posMap transitionMap findMorphsFromTrie recombinationMap =
      Some ws"
    and "ws \<noteq> [] \<or> tx = []"
  then have "spans tx trie 0 (concat (map tokens ws)) (length tx)"
    by (rule segment_path)
  from spans_concat[OF this] show ?thesis by (simp add: slice_def)
qed

lemma today_run:
  "viterbiSegment real_arith today_text (buildMorphTrie today_dict) today_posMap
     example_transitions findMorphsFromTrie Map.empty =
   Some [\<lparr>tokens = [\<lparr>morph = [20170, 26085], pos = lit ''noun'', kind = Text, transProb = 1\<rparr>]\<rparr>,
         \<lparr>tokens = [\<lparr>morph = [12399], pos = lit ''particle'', kind = Text,
            transProb = 1 / 2\<rparr>]\<rparr>]"
  by (simp add: eval_defs today_dict_def today_posMap_def today_text_def
      example_transitions_def real_arith_def)

theorem coverage_witness:
  "viterbiSegment real_arith today_text (buildMorphTrie today_dict) today_posMap
     example_transitions findMorphsFromTrie Map.empty =
     Some [\<lparr>tokens = [\<lparr>morph = [20170, 26085], pos = lit ''noun'', kind = Text, transProb = 1\<rparr>]\<rparr>,
         \<lparr>tokens = [\<lparr>morph = [12399], pos = lit ''particle'', kind = Text,
            transProb = 1 / 2\<rparr>]\<rparr>] \<and>
   concat (map morph (concat (map tokens
     [\<lparr>tokens = [\<lparr>morph = [20170, 26085], pos = lit ''noun'', kind = Text, transProb = 1\<rparr>]\<rparr>,
      \<lparr>tokens = [\<lparr>morph = [12399], pos = lit ''particle'', kind = Text,
         transProb = 1 / 2\<rparr>]\<rparr>]))) = today_text"
  using coverage [OF today_run] today_run
  by simp

section \<open>The transition policy\<close>










section \<open>Whitespace atomicity\<close>

text \<open>The tokens of an output with the positions they cover: (start, end, token).\<close>

fun layout :: "nat \<Rightarrow> token list \<Rightarrow> (nat \<times> nat \<times> token) list" where
  "layout i [] = []"
| "layout i (t # ts) = (i, i + length (morph t), t) # layout (i + length (morph t)) ts"

text \<open>A maximal run of whitespace units: \<open>text[i..j)\<close>.\<close>

definition ws_run :: "jstr \<Rightarrow> nat \<Rightarrow> nat \<Rightarrow> bool" where
  "ws_run tx i j \<longleftrightarrow>
     i < j \<and> j \<le> length tx \<and> (\<forall>p \<in> {i..<j}. is_ws (tx ! p)) \<and>
     (i = 0 \<or> \<not> is_ws (tx ! (i - 1))) \<and> (j = length tx \<or> \<not> is_ws (tx ! j))"

text \<open>
  No morph that the trie matches at a position of the text that is not whitespace
  contains a whitespace unit.
\<close>

definition ws_free_matches :: "trie \<Rightarrow> jstr \<Rightarrow> bool" where
  "ws_free_matches trie tx \<longleftrightarrow>
     (\<forall>i \<in> {0..<length tx}. \<not> is_ws (tx ! i) \<longrightarrow>
        (\<forall>(m, e) \<in> set (findMorphsFromTrie trie tx i). \<forall>c \<in> set m. \<not> is_ws c))"

text \<open>A position that does not lie inside a whitespace run.\<close>

definition boundary_ok :: "jstr \<Rightarrow> nat \<Rightarrow> bool" where
  "boundary_ok tx a \<longleftrightarrow> \<not> (0 < a \<and> a < length tx \<and> is_ws (tx ! (a - 1)) \<and> is_ws (tx ! a))"

lemma slice_nth: "i \<le> p \<Longrightarrow> p < j \<Longrightarrow> j \<le> length tx \<Longrightarrow> tx ! p \<in> set (slice tx i j)"
proof -
  assume a: "i \<le> p" "p < j" "j \<le> length tx"
  then have "slice tx i j ! (p - i) = tx ! p" by (simp add: slice_def)
  moreover from a have "p - i < length (slice tx i j)" by (simp add: slice_def)
  ultimately show ?thesis by (metis nth_mem)
qed

lemma step_no_ws:
  assumes free: "ws_free_matches trie tx"
    and step: "step_ok tx trie i j t"
    and k: "kind t \<noteq> Whitespace"
  shows "\<forall>c \<in> set (morph t). \<not> is_ws c"
proof (cases "kind t")
  case Text
  from step have range: "i < j" "j \<le> length tx"
    and rule: "case kind t of
        Whitespace \<Rightarrow> is_ws (tx ! i) \<and> j = ws_end tx i
      | Text \<Rightarrow> \<not> is_ws (tx ! i) \<and> (morph t, j) \<in> set (findMorphsFromTrie trie tx i)
      | Skipped \<Rightarrow> \<not> is_ws (tx ! i) \<and> j = Suc i"
    unfolding step_ok_def by blast+
  from rule Text have "\<not> is_ws (tx ! i)" "(morph t, j) \<in> set (findMorphsFromTrie trie tx i)"
    by simp_all
  moreover from range have "i < length tx" by simp
  ultimately show ?thesis using free unfolding ws_free_matches_def by fastforce
next
  case Whitespace
  with k show ?thesis by simp
next
  case Skipped
  with step have "i < length tx" "\<not> is_ws (tx ! i)" "morph t = slice tx i (Suc i)"
    by (auto simp: step_ok_def)
  then show ?thesis by (simp add: slice_one)
qed

lemma step_no_ws_at:
  assumes "ws_free_matches trie tx" "step_ok tx trie i j t" "kind t \<noteq> Whitespace"
    and "i \<le> p" "p < j"
  shows "\<not> is_ws (tx ! p)"
proof -
  from assms(2) have "j \<le> length tx" "morph t = slice tx i j" by (simp_all add: step_ok_def)
  with assms(4,5) have "tx ! p \<in> set (morph t)" by (simp add: slice_nth)
  with step_no_ws[OF assms(1-3)] show ?thesis by blast
qed

lemma step_ws_at:
  assumes "step_ok tx trie i j t" "kind t = Whitespace" "i \<le> p" "p < j"
  shows "is_ws (tx ! p)"
  using assms ws_end_all[of i p tx] by (simp add: step_ok_def)

lemma step_ws_stop:
  assumes "step_ok tx trie i j t" "kind t = Whitespace"
  shows "j = length tx \<or> \<not> is_ws (tx ! j)"
proof (cases "j < length tx")
  case True
  with assms ws_end_stop[of tx i] show ?thesis by (simp add: step_ok_def)
next
  case False
  with assms show ?thesis by (simp add: step_ok_def)
qed

lemma step_boundary:
  assumes free: "ws_free_matches trie tx" and step: "step_ok tx trie i j t"
  shows "boundary_ok tx j"
proof (cases "kind t = Whitespace")
  case True
  from step_ws_stop[OF step True] show ?thesis by (auto simp: boundary_ok_def)
next
  case False
  from step have "i < j" by (simp add: step_ok_def)
  then have "i \<le> j - 1" "j - 1 < j" by simp_all
  from step_no_ws_at[OF free step False this] show ?thesis by (simp add: boundary_ok_def)
qed

lemma layout_start: "(a, b, t) \<in> set (layout i ts) \<Longrightarrow> i \<le> a"
  by (induction ts arbitrary: i) fastforce+

lemma layout_steps:
  assumes free: "ws_free_matches trie tx"
  shows "spans tx trie i ts j \<Longrightarrow> boundary_ok tx i \<Longrightarrow> (a, b, t) \<in> set (layout i ts) \<Longrightarrow>
     step_ok tx trie a b t \<and> boundary_ok tx a"
proof (induction ts arbitrary: i)
  case Nil
  then show ?case by simp
next
  case (Cons u ts)
  let ?k = "i + length (morph u)"
  from Cons.prems(1) have step: "step_ok tx trie i ?k u" and rest: "spans tx trie ?k ts j"
    by simp_all
  show ?case
  proof (cases "(a, b, t) = (i, ?k, u)")
    case True
    with step Cons.prems(2) show ?thesis by simp
  next
    case False
    with Cons.prems(3) have "(a, b, t) \<in> set (layout ?k ts)" by auto
    from Cons.IH[OF rest step_boundary[OF free step] this] show ?thesis .
  qed
qed

lemma layout_cover:
  "spans tx trie i ts j \<Longrightarrow> i \<le> p \<Longrightarrow> p < j \<Longrightarrow>
   \<exists>a b t. (a, b, t) \<in> set (layout i ts) \<and> a \<le> p \<and> p < b"
proof (induction ts arbitrary: i)
  case Nil
  then show ?case by simp
next
  case (Cons u ts)
  let ?k = "i + length (morph u)"
  from Cons.prems(1) have rest: "spans tx trie ?k ts j" by simp
  show ?case
  proof (cases "p < ?k")
    case True
    with Cons.prems(2) have "(i, ?k, u) \<in> set (layout i (u # ts)) \<and> i \<le> p \<and> p < ?k"
      by simp
    then show ?thesis by blast
  next
    case False
    then have "?k \<le> p" by simp
    from Cons.IH[OF rest this Cons.prems(3)] obtain a b t where
      "(a, b, t) \<in> set (layout ?k ts)" "a \<le> p" "p < b"
      by blast
    then have "(a, b, t) \<in> set (layout i (u # ts)) \<and> a \<le> p \<and> p < b" by simp
    then show ?thesis by blast
  qed
qed

lemma layout_sorted: "spans tx trie i ts j \<Longrightarrow> sorted_wrt (<) (map fst (layout i ts))"
proof (induction ts arbitrary: i)
  case Nil
  then show ?case by simp
next
  case (Cons u ts)
  let ?k = "i + length (morph u)"
  from Cons.prems have step: "step_ok tx trie i ?k u" and rest: "spans tx trie ?k ts j"
    by simp_all
  from step have "i < ?k" by (simp add: step_ok_def)
  have "i < fst x" if "x \<in> set (layout ?k ts)" for x
  proof -
    obtain a b t where x: "x = (a, b, t)" by (cases x)
    with that layout_start[of a b t ?k ts] have "?k \<le> a" by simp
    with \<open>i < ?k\<close> have "i < a" by (rule less_le_trans)
    with x show ?thesis by simp
  qed
  with Cons.IH[OF rest] show ?case by simp
qed

lemma run_overlap:
  assumes free: "ws_free_matches trie tx"
    and step: "step_ok tx trie a b t"
    and bnd: "boundary_ok tx a"
    and run: "ws_run tx i j"
    and ov: "a < j" "i < b"
  shows "a = i \<and> b = j \<and> kind t = Whitespace"
proof -
  from step have ab: "a < b" "b \<le> length tx" by (simp_all add: step_ok_def)
  from run have ij: "i < j" "j \<le> length tx"
    and inrun: "\<And>p. i \<le> p \<Longrightarrow> p < j \<Longrightarrow> is_ws (tx ! p)"
    and left: "i = 0 \<or> \<not> is_ws (tx ! (i - 1))"
    and right: "j = length tx \<or> \<not> is_ws (tx ! j)"
    by (simp_all add: ws_run_def)
  let ?p = "max a i"
  have p: "a \<le> ?p" "?p < b" "i \<le> ?p" "?p < j"
    using ab ij ov by simp_all
  have ws: "kind t = Whitespace"
  proof (rule ccontr)
    assume "kind t \<noteq> Whitespace"
    from step_no_ws_at[OF free step this p(1,2)] inrun[OF p(3,4)] show False by simp
  qed
  have intok: "\<And>q. a \<le> q \<Longrightarrow> q < b \<Longrightarrow> is_ws (tx ! q)"
    using step_ws_at[OF step ws] .
  have stop: "b = length tx \<or> \<not> is_ws (tx ! b)"
    using step_ws_stop[OF step ws] .
  have "a = i"
  proof (rule ccontr)
    assume ne: "a \<noteq> i"
    show False
    proof (cases "a < i")
      case True
      then have "a \<le> i - 1" "i - 1 < b" using ov by simp_all
      from intok[OF this] left True show False by simp
    next
      case False
      with ne have lt: "i < a" by simp
      then have "i \<le> a - 1" "a - 1 < j" using ov by simp_all
      from inrun[OF this] have "is_ws (tx ! (a - 1))" .
      moreover have "is_ws (tx ! a)" using intok[of a] ab by simp
      ultimately show False using bnd lt ab by (simp add: boundary_ok_def)
    qed
  qed
  moreover have "b = j"
  proof (rule ccontr)
    assume ne: "b \<noteq> j"
    show False
    proof (cases "b < j")
      case True
      with ov have "is_ws (tx ! b)" by (intro inrun) simp_all
      with stop True ij show False by simp
    next
      case False
      with ne have lt: "j < b" by simp
      with ov have "is_ws (tx ! j)" by (intro intok) simp_all
      with right lt ab show False by simp
    qed
  qed
  ultimately show ?thesis using ws by simp
qed

text \<open>
  When no morph that the trie matches at a non-whitespace position of the text
  contains whitespace, every result that is not a dead end keeps the runs whole:
  the Tokens cover increasing positions; every maximal whitespace run \<open>text[i..j)\<close>
  is the span of a Token of kind whitespace whose text is the whole run; every Token
  that overlaps the run is that Token; and no Token of another kind contains a
  whitespace unit.
\<close>

lemma whitespace_runs_kept:
  fixes A :: "'s arith"
  assumes free: "ws_free_matches trie tx"
    and run: "viterbiSegment A tx trie posMap transitionMap findMorphsFromTrie recombinationMap =
      Some ws"
    and ne: "ws \<noteq> [] \<or> tx = []"
  shows "sorted_wrt (<) (map fst (layout 0 (concat (map tokens ws)))) \<and>
        (\<forall>i j. ws_run tx i j \<longrightarrow>
           (\<exists>t. (i, j, t) \<in> set (layout 0 (concat (map tokens ws))) \<and>
              kind t = Whitespace \<and> morph t = slice tx i j) \<and>
           (\<forall>(a, b, t) \<in> set (layout 0 (concat (map tokens ws))).
              a < j \<and> i < b \<longrightarrow> a = i \<and> b = j \<and> kind t = Whitespace)) \<and>
        (\<forall>(a, b, t) \<in> set (layout 0 (concat (map tokens ws))).
           kind t \<noteq> Whitespace \<longrightarrow> (\<forall>c \<in> set (morph t). \<not> is_ws c))"
proof -
  let ?L = "layout 0 (concat (map tokens ws))"
  from segment_path[OF run ne]
  have sp: "spans tx trie 0 (concat (map tokens ws)) (length tx)" .
  show ?thesis
  proof (intro conjI allI impI)
    show "sorted_wrt (<) (map fst ?L)" using sp by (rule layout_sorted)
  next
    have b0: "boundary_ok tx 0" by (simp add: boundary_ok_def)
    have steps: "step_ok tx trie a b t \<and> boundary_ok tx a" if "(a, b, t) \<in> set ?L" for a b t
      using layout_steps[OF free sp b0 that] .
    {
      fix i j assume run: "ws_run tx i j"
      have over: "a = i \<and> b = j \<and> kind t = Whitespace"
        if "(a, b, t) \<in> set ?L" "a < j" "i < b" for a b t
        using steps[OF that(1)] run_overlap[OF free _ _ run that(2,3)] by blast
      then show "\<forall>(a, b, t) \<in> set ?L. a < j \<and> i < b \<longrightarrow> a = i \<and> b = j \<and> kind t = Whitespace"
        by blast
      from run have "0 \<le> i" "i < length tx" by (simp_all add: ws_run_def)
      from layout_cover[OF sp this] obtain a b t where
        abt: "(a, b, t) \<in> set ?L" "a \<le> i" "i < b"
        by blast
      from run abt(2) have "a < j" by (simp add: ws_run_def)
      from over[OF abt(1) this abt(3)] have eq: "a = i" "b = j" "kind t = Whitespace"
        by simp_all
      from steps[OF abt(1)] eq have "morph t = slice tx i j" by (simp add: step_ok_def)
      with abt(1) eq
      show "\<exists>t. (i, j, t) \<in> set ?L \<and> kind t = Whitespace \<and> morph t = slice tx i j"
        by blast
    }
    show "\<forall>(a, b, t) \<in> set ?L. kind t \<noteq> Whitespace \<longrightarrow> (\<forall>c \<in> set (morph t). \<not> is_ws c)"
      using steps step_no_ws[OF free] by blast
  qed
qed

text \<open>Example 1 with two spaces inside: the run \<open>text[2..4)\<close> is one whitespace Token.\<close>

definition spaced_today :: jstr where
  "spaced_today = [20170, 26085, 32, 32, 12399]"

lemma spaced_today_run:
  "viterbiSegment real_arith spaced_today (buildMorphTrie today_dict) today_posMap
     example_transitions findMorphsFromTrie Map.empty =
   Some [\<lparr>tokens = [\<lparr>morph = [20170, 26085], pos = lit ''noun'', kind = Text, transProb = 1\<rparr>]\<rparr>,
         \<lparr>tokens = [\<lparr>morph = [32, 32], pos = [], kind = Whitespace, transProb = 1\<rparr>]\<rparr>,
         \<lparr>tokens = [\<lparr>morph = [12399], pos = lit ''particle'', kind = Text,
            transProb = 1 / 2\<rparr>]\<rparr>]"
  by (simp add: eval_defs today_dict_def today_posMap_def spaced_today_def
      example_transitions_def real_arith_def)

lemma today_trie:
  "buildMorphTrie today_dict =
     [(20170, TrieNode False [(26085, TrieNode True [])]), (12399, TrieNode True [])]"
  by (simp add: today_dict_def buildMorphTrie_def Let_def)

lemma spaced_today_free: "ws_free_matches (buildMorphTrie today_dict) spaced_today"
  unfolding today_trie ws_free_matches_def spaced_today_def
  apply (simp only: list.size length_Cons)
  apply (simp add: atLeastLessThanSuc del: One_nat_def)
  apply (simp add: is_ws_def findMorphsFromTrie_def findMorphs_loop.simps slice_def)
  done

lemma spaced_today_kept:
  "ws_run spaced_today 2 4 \<and>
   (\<exists>t. (2, 4, t) \<in> set (layout 0 (concat (map tokens
       [\<lparr>tokens = [\<lparr>morph = [20170, 26085], pos = lit ''noun'', kind = Text, transProb = 1\<rparr>]\<rparr>,
         \<lparr>tokens = [\<lparr>morph = [32, 32], pos = [], kind = Whitespace, transProb = 1\<rparr>]\<rparr>,
         \<lparr>tokens = [\<lparr>morph = [12399], pos = lit ''particle'', kind = Text,
            transProb = 1 / 2\<rparr>]\<rparr>]))) \<and>
      kind t = Whitespace \<and> morph t = slice spaced_today 2 4)"
proof -
  have "{2..<4} = {2, 3::nat}" by auto
  then have run: "ws_run spaced_today 2 4"
    by (simp add: ws_run_def spaced_today_def is_ws_def)
  from whitespace_runs_kept [OF spaced_today_free spaced_today_run]
  have "\<forall>i j. ws_run spaced_today i j \<longrightarrow>
      (\<exists>t. (i, j, t) \<in> set (layout 0 (concat (map tokens
         [\<lparr>tokens = [\<lparr>morph = [20170, 26085], pos = lit ''noun'', kind = Text, transProb = 1\<rparr>]\<rparr>,
         \<lparr>tokens = [\<lparr>morph = [32, 32], pos = [], kind = Whitespace, transProb = 1\<rparr>]\<rparr>,
         \<lparr>tokens = [\<lparr>morph = [12399], pos = lit ''particle'', kind = Text,
            transProb = 1 / 2\<rparr>]\<rparr>]))) \<and>
         kind t = Whitespace \<and> morph t = slice spaced_today i j)"
    by simp
  with run show ?thesis by blast
qed

text \<open>Example data: a morph that contains a space.\<close>

definition spaced_dict :: "(jstr \<times> jstr) list" where
  "spaced_dict = [(lit ''a b'', lit ''n'')]"

definition spaced_posMap :: "jstr \<rightharpoonup> jstr list" where
  "spaced_posMap = [lit ''a b'' \<mapsto> [lit ''n'']]"

text \<open>
  C5 fails on the code. A morph of the dictionary may contain whitespace, and the
  trie query walks over whitespace units like over any other. With the morph \<open>a b\<close>
  in the dictionary the text \<open>a b\<close> is returned as one text Token: its whitespace
  run \<open>text[1..2)\<close>, between two units that are not whitespace, is embedded in that
  Token, and no Token of kind whitespace is returned.
\<close>

theorem whitespace_in_text_token:
  "buildPosMap spaced_dict = Some spaced_posMap \<and>
   viterbiSegment real_arith (lit ''a b'') (buildMorphTrie spaced_dict) spaced_posMap
     Map.empty findMorphsFromTrie Map.empty =
     Some [\<lparr>tokens = [\<lparr>morph = lit ''a b'', pos = lit ''n'', kind = Text, transProb = 1\<rparr>]\<rparr>] \<and>
   length (lit ''a b'') = 3 \<and>
   \<not> is_ws (lit ''a b'' ! 0) \<and> is_ws (lit ''a b'' ! 1) \<and> \<not> is_ws (lit ''a b'' ! 2)"
  by (simp add: eval_defs spaced_dict_def spaced_posMap_def real_arith_def)

end
